theory Spec2Isabelle
  imports Main "HOL-Library.Word"
begin

unbundle bit_operations_syntax

section \<open>Data model\<close>

text \<open>
  The allocator works on \<open>size_t\<close> values (64-bit unsigned, arithmetic wraps around) and
  on a ledger of \<open>uint8_t\<close> bytes. Addresses are natural numbers; \<open>nullptr\<close> is the
  value \<open>None\<close> of an optional address.

  C++ leaves three situations of this code undefined: a division by a \<open>BlockSize\<close> of
  zero, a ledger access past the end of the ledger buffer, and the overflow of the
  \<open>int\<close> loop counter of the scan. Each is a \<open>fault\<close> value of the model, so no
  theorem silently relies on what HOL's total functions return there.
\<close>

type_synonym size_t = "64 word"
type_synonym uint8_t = "8 word"
type_synonym address = nat

datatype fault = DivisionByZero | OutOfBounds | SignedOverflow

record bucket =
  BlockSize :: size_t
  BlockCount :: size_t
  data :: address
  ledger :: "uint8_t list"

text \<open>The local constant \<open>ledger_size = 1 + ((BlockCount - 1) / 8)\<close> of the constructor
  and of the scan.\<close>

definition ledger_size :: "size_t \<Rightarrow> size_t" where
  "ledger_size block_count = 1 + ((block_count - 1) div 8)"

text \<open>The constructor. The address that \<open>malloc\<close> returned for the arena is the
  parameter \<open>base\<close>; the ledger is zeroed by \<open>memset\<close>. The contents of the arena are
  not part of the model, no operation of the allocator reads them.\<close>

definition new_bucket :: "address \<Rightarrow> size_t \<Rightarrow> size_t \<Rightarrow> bucket" where
  "new_bucket base block_size block_count =
     \<lparr>BlockSize = block_size, BlockCount = block_count, data = base,
      ledger = replicate (unat (ledger_size block_count)) 0\<rparr>"

definition belongs :: "bucket \<Rightarrow> address \<Rightarrow> bool" where
  "belongs b ptr \<longleftrightarrow>
     data b \<le> ptr \<and> ptr < data b + unat (BlockSize b * BlockCount b)"

section \<open>Scanning the ledger\<close>

text \<open>The four locals of \<open>find_contiguous_blocks\<close> that live across both loops.\<close>

record scan =
  count :: size_t
  shift :: size_t
  begin_index :: size_t
  found :: bool

text \<open>
  The inner loop \<open>for (int j = 7; j >= 0; --j)\<close> over the bits of the byte \<open>cur\<close> of
  ledger position \<open>i\<close>. The argument \<open>Suc j\<close> stands for "bit \<open>j\<close> is the next one to
  look at"; the loop is entered with 8. The \<open>break\<close> is the branch that does not recurse.
\<close>

fun inner_loop :: "size_t \<Rightarrow> uint8_t \<Rightarrow> nat \<Rightarrow> nat \<Rightarrow> scan \<Rightarrow> scan" where
  "inner_loop n cur i 0 s = s"
| "inner_loop n cur i (Suc j) s =
     (if cur AND push_bit j 1 = 0 then
        (let s1 = s\<lparr>count := count s + 1\<rparr> in
         if count s1 = n then s1\<lparr>found := True\<rparr>
         else inner_loop n cur i j s1)
      else
        inner_loop n cur i j
          (s\<lparr>count := 0, begin_index := of_nat i, shift := of_nat ((8 - j) mod 8)\<rparr>))"

text \<open>
  The outer loop \<open>for (int i = 0; i < ledger_size; ++i)\<close>. Reading \<open>ledger_[i]\<close> past
  the buffer and incrementing \<open>i\<close> beyond \<open>INT_MAX\<close> are faults.
\<close>

function find_loop :: "bucket \<Rightarrow> size_t \<Rightarrow> nat \<Rightarrow> scan \<Rightarrow> fault + size_t" where
  "find_loop b n i s =
     (if i < unat (ledger_size (BlockCount b)) then
        (if length (ledger b) \<le> i then Inl OutOfBounds
         else
           (let s' = inner_loop n (ledger b ! i) i 8 s in
            if found s' then Inr (8 * begin_index s' + shift s')
            else if i = 2147483647 then Inl SignedOverflow
            else find_loop b n (i + 1) s'))
      else Inr (BlockCount b))"
  by pat_completeness auto
termination
  by (relation "measure (\<lambda>(b, n, i, s). unat (ledger_size (BlockCount b)) - i)") auto

definition find_contiguous_blocks :: "bucket \<Rightarrow> size_t \<Rightarrow> fault + size_t" where
  "find_contiguous_blocks b n =
     find_loop b n 0 \<lparr>count = 0, shift = 0, begin_index = 0, found = False\<rparr>"

section \<open>Setting and clearing a run of bits\<close>

text \<open>
  \<open>(1 << k) - 1\<close> is computed in \<open>int\<close> and then stored into, or subtracted from, a
  \<open>uint8_t\<close>: the conversion keeps the low eight bits.

  The locals \<open>byte_index\<close>, \<open>bit_index\<close> and \<open>bits_remaining\<close> are natural numbers
  in the model. None of them can wrap in the source: \<open>bit_index\<close> is below 8, every
  subtraction is guarded by the comparison before it or takes a minimum, and
  \<open>byte_index\<close> is checked against the length of the ledger before each access.
\<close>

definition low_bits :: "nat \<Rightarrow> uint8_t" where
  "low_bits k = word_of_int (push_bit k 1 - 1)"

function set_used_loop :: "nat \<Rightarrow> nat \<Rightarrow> uint8_t list \<Rightarrow> fault + uint8_t list" where
  "set_used_loop byte_index bits_remaining l =
     (if 0 < bits_remaining then
        (let byte_index' = byte_index + 1;
             bits_to_set = min bits_remaining 8;
             mask = (if bits_to_set < 8 then 0xFF - low_bits (8 - bits_to_set) else 0xFF)
         in if byte_index' < length l then
              set_used_loop byte_index' (bits_remaining - bits_to_set)
                (l[byte_index' := l ! byte_index' OR mask])
            else Inl OutOfBounds)
      else Inr l)"
  by pat_completeness auto
termination
  by (relation "measure (\<lambda>(byte_index, bits_remaining, l). bits_remaining)") auto

definition set_used :: "size_t \<Rightarrow> size_t \<Rightarrow> uint8_t list \<Rightarrow> fault + uint8_t list" where
  "set_used index n l =
     (let byte_index = unat (index div 8);
          bit_index = unat (index mod 8);
          bits_remaining = unat n;
          mask = (if bits_remaining < 8 - bit_index
                  then low_bits (8 - bit_index) - low_bits (8 - bit_index - bits_remaining)
                  else low_bits (8 - bit_index))
      in if byte_index < length l then
           set_used_loop byte_index (bits_remaining - min (unat n) (8 - bit_index))
             (l[byte_index := l ! byte_index OR mask])
         else Inl OutOfBounds)"

function set_free_loop :: "nat \<Rightarrow> nat \<Rightarrow> uint8_t list \<Rightarrow> fault + uint8_t list" where
  "set_free_loop byte_index bits_remaining l =
     (if 0 < bits_remaining then
        (let byte_index' = byte_index + 1;
             bits_to_set = min bits_remaining 8;
             mask = NOT (if bits_to_set < 8 then 0xFF - low_bits (8 - bits_to_set) else 0xFF)
         in if byte_index' < length l then
              set_free_loop byte_index' (bits_remaining - bits_to_set)
                (l[byte_index' := l ! byte_index' AND mask])
            else Inl OutOfBounds)
      else Inr l)"
  by pat_completeness auto
termination
  by (relation "measure (\<lambda>(byte_index, bits_remaining, l). bits_remaining)") auto

definition set_free :: "size_t \<Rightarrow> size_t \<Rightarrow> uint8_t list \<Rightarrow> fault + uint8_t list" where
  "set_free index n l =
     (let byte_index = unat (index div 8);
          bit_index = unat (index mod 8);
          bits_remaining = unat n;
          mask = NOT (if bits_remaining < 8 - bit_index
                      then low_bits (8 - bit_index) - low_bits (8 - bit_index - bits_remaining)
                      else low_bits (8 - bit_index))
      in if byte_index < length l then
           set_free_loop byte_index (bits_remaining - min (unat n) (8 - bit_index))
             (l[byte_index := l ! byte_index AND mask])
         else Inl OutOfBounds)"

section \<open>The bucket's operations\<close>

text \<open>\<open>allocate\<close> returns the pointer (\<open>None\<close> for \<open>nullptr\<close>) and the bucket after
  the call.\<close>

definition bucket_allocate :: "bucket \<Rightarrow> size_t \<Rightarrow> fault + (address option \<times> bucket)" where
  "bucket_allocate b bytes =
     (if BlockSize b = 0 then Inl DivisionByZero
      else
        (let n = 1 + ((bytes - 1) div BlockSize b) in
         case find_contiguous_blocks b n of
           Inl f \<Rightarrow> Inl f
         | Inr index \<Rightarrow>
             if index = BlockCount b then Inr (None, b)
             else
               (case set_used index n (ledger b) of
                  Inl f \<Rightarrow> Inl f
                | Inr l \<Rightarrow> Inr (Some (data b + unat (index * BlockSize b)), b\<lparr>ledger := l\<rparr>))))"

definition bucket_deallocate :: "bucket \<Rightarrow> address \<Rightarrow> size_t \<Rightarrow> fault + bucket" where
  "bucket_deallocate b ptr bytes =
     (if BlockSize b = 0 then Inl DivisionByZero
      else
        (let distance = (word_of_int (int ptr - int (data b)) :: size_t);
             index = distance div BlockSize b;
             n = 1 + ((bytes - 1) div BlockSize b)
         in case set_free index n (ledger b) of
              Inl f \<Rightarrow> Inl f
            | Inr l \<Rightarrow> Inr (b\<lparr>ledger := l\<rparr>)))"

section \<open>The pool dispatcher\<close>

text \<open>The score of one bucket for one request, and its comparison operator.\<close>

record info =
  index :: nat
  block_count :: size_t
  waste :: size_t

definition info_less :: "info \<Rightarrow> info \<Rightarrow> bool" where
  "info_less a other =
     (if waste a = waste other then block_count a < block_count other
      else waste a < waste other)"

text \<open>The body of the first loop of \<open>MemoryPoolAllocator::allocate\<close>, for the bucket at
  position \<open>idx\<close> of the pool.\<close>

definition score :: "size_t \<Rightarrow> nat \<Rightarrow> bucket \<Rightarrow> fault + info" where
  "score bytes idx b =
     (if bytes \<le> BlockSize b then
        Inr \<lparr>index = idx, block_count = 1, waste = BlockSize b - bytes\<rparr>
      else if BlockSize b = 0 then Inl DivisionByZero
      else
        (let n = 1 + ((bytes - 1) div BlockSize b);
             mem_required = n * BlockSize b
         in Inr \<lparr>index = idx, block_count = n, waste = mem_required - bytes\<rparr>))"

fun fill_options :: "bucket list \<Rightarrow> size_t \<Rightarrow> nat \<Rightarrow> fault + info list" where
  "fill_options [] bytes idx = Inr []"
| "fill_options (b # bs) bytes idx =
     (case score bytes idx b of
        Inl f \<Rightarrow> Inl f
      | Inr opt \<Rightarrow>
          (case fill_options bs bytes (idx + 1) of
             Inl f \<Rightarrow> Inl f
           | Inr opts \<Rightarrow> Inr (opt # opts)))"

text \<open>
  \<open>std::sort\<close> with \<open>operator<\<close> of \<open>info\<close>. The standard fixes the result up to the
  order of elements neither of which is less than the other; the model is an insertion
  sort, which keeps such elements in the order of the pool.
\<close>

fun insert_info :: "info \<Rightarrow> info list \<Rightarrow> info list" where
  "insert_info x [] = [x]"
| "insert_info x (y # ys) =
     (if info_less y x then y # insert_info x ys else x # y # ys)"

fun std_sort :: "info list \<Rightarrow> info list" where
  "std_sort [] = []"
| "std_sort (x # xs) = insert_info x (std_sort xs)"

text \<open>The second loop: the first bucket that returns a pointer serves the request;
  \<open>throw std::bad_alloc\<close> when none does.\<close>

datatype failure = bad_alloc | Undefined fault

fun try_options ::
  "info list \<Rightarrow> bucket list \<Rightarrow> size_t \<Rightarrow> (failure + address) \<times> bucket list" where
  "try_options [] pool bytes = (Inl bad_alloc, pool)"
| "try_options (opt # rest) pool bytes =
     (if length pool \<le> index opt then (Inl (Undefined OutOfBounds), pool)
      else
        (case bucket_allocate (pool ! index opt) bytes of
           Inl f \<Rightarrow> (Inl (Undefined f), pool)
         | Inr (None, b') \<Rightarrow> try_options rest pool bytes
         | Inr (Some ptr, b') \<Rightarrow> (Inr ptr, pool[index opt := b'])))"

definition MemoryPoolAllocator_allocate ::
  "bucket list \<Rightarrow> size_t \<Rightarrow> (failure + address) \<times> bucket list" where
  "MemoryPoolAllocator_allocate pool bytes =
     (case fill_options pool bytes 0 of
        Inl f \<Rightarrow> (Inl (Undefined f), pool)
      | Inr options \<Rightarrow> try_options (std_sort options) pool bytes)"

fun MemoryPoolAllocator_deallocate ::
  "bucket list \<Rightarrow> address \<Rightarrow> size_t \<Rightarrow> fault + bucket list" where
  "MemoryPoolAllocator_deallocate [] ptr n = Inr []"
| "MemoryPoolAllocator_deallocate (b # bs) ptr n =
     (if belongs b ptr then
        (case bucket_deallocate b ptr n of
           Inl f \<Rightarrow> Inl f
         | Inr b' \<Rightarrow> Inr (b' # bs))
      else
        (case MemoryPoolAllocator_deallocate bs ptr n of
           Inl f \<Rightarrow> Inl f
         | Inr bs' \<Rightarrow> Inr (b # bs')))"

section \<open>Reading the ledger\<close>

text \<open>
  The scan looks at byte \<open>i\<close> from bit 7 down to bit 0 and counts the positions it has
  passed, so block \<open>k\<close> is bit \<open>7 - k mod 8\<close> of byte \<open>k div 8\<close>. \<open>used_blocks\<close> lists
  the positions of the whole ledger whose bit is 1, the padding positions after the last
  block included.
\<close>

definition block_used :: "uint8_t list \<Rightarrow> nat \<Rightarrow> bool" where
  "block_used l k \<longleftrightarrow> l ! (k div 8) AND push_bit (7 - k mod 8) 1 \<noteq> 0"

definition used_blocks :: "bucket \<Rightarrow> nat list" where
  "used_blocks b = filter (block_used (ledger b)) [0 ..< 8 * length (ledger b)]"

declare find_loop.simps [simp del]
declare set_used_loop.simps [simp del]
declare set_free_loop.simps [simp del]

section \<open>Evaluation on numerals\<close>

lemma inner_loop_numeral:
  "inner_loop n cur i (numeral k) s =
     (if cur AND push_bit (pred_numeral k) 1 = 0 then
        (let s1 = s\<lparr>count := count s + 1\<rparr> in
         if count s1 = n then s1\<lparr>found := True\<rparr>
         else inner_loop n cur i (pred_numeral k) s1)
      else
        inner_loop n cur i (pred_numeral k)
          (s\<lparr>count := 0, begin_index := of_nat i,
             shift := of_nat ((8 - pred_numeral k) mod 8)\<rparr>))"
  by (simp add: numeral_eq_Suc)

lemma replicate_numeral:
  "replicate (numeral k) x = x # replicate (pred_numeral k) x"
  by (simp add: numeral_eq_Suc)

lemmas bucket_eval =
  bucket_allocate_def bucket_deallocate_def new_bucket_def ledger_size_def
  replicate_numeral find_contiguous_blocks_def find_loop.simps inner_loop_numeral
  set_used_def set_free_def low_bits_def set_used_loop.simps set_free_loop.simps

lemmas ledger_eval = used_blocks_def block_used_def upt_rec

section \<open>One bucket on concrete requests\<close>

text \<open>
  C6. A fresh bucket of 16 blocks of 8 bytes has a ledger of two bytes. A request of 40
  bytes needs 5 blocks: it is served at the base address and marks exactly the blocks
  0 to 4. The request of 8 bytes that follows is served at block 5, which is the address
  \<open>base + 5 * 8\<close>.
\<close>

theorem multi_block_run_then_next_block:
  "1 + ((40 - 1) div 8) = (5 :: size_t) \<and>
   length (ledger (new_bucket base 8 16)) = 2 \<and>
   bucket_allocate (new_bucket base 8 16) 40 =
     Inr (Some base, \<lparr>BlockSize = 8, BlockCount = 16, data = base, ledger = [0xF8, 0]\<rparr>) \<and>
   used_blocks \<lparr>BlockSize = 8, BlockCount = 16, data = base, ledger = [0xF8, 0]\<rparr> =
     [0, 1, 2, 3, 4] \<and>
   bucket_allocate \<lparr>BlockSize = 8, BlockCount = 16, data = base, ledger = [0xF8, 0]\<rparr> 8 =
     Inr (Some (base + 5 * 8),
          \<lparr>BlockSize = 8, BlockCount = 16, data = base, ledger = [0xFC, 0]\<rparr>)"
  by (simp add: bucket_eval ledger_eval)

text \<open>
  C1. The scan is not first-fit when the last used bit before the run is the last bit of
  a byte: \<open>shift\<close> becomes \<open>(8 - 0) % 8 = 0\<close> while \<open>begin_index\<close> stays at that byte,
  so the result is the first position of the byte instead of the first position of the
  next one. In a bucket of 16 blocks of 8 bytes, a request of 64 bytes takes the blocks
  0 to 7; the request of 8 bytes that follows gets block 0 again, the same address,
  although the lowest free block is block 8.
\<close>

theorem scan_returns_used_block_after_full_byte:
  "bucket_allocate (new_bucket base 8 16) 64 =
     Inr (Some base, \<lparr>BlockSize = 8, BlockCount = 16, data = base, ledger = [0xFF, 0]\<rparr>) \<and>
   used_blocks \<lparr>BlockSize = 8, BlockCount = 16, data = base, ledger = [0xFF, 0]\<rparr> =
     [0, 1, 2, 3, 4, 5, 6, 7] \<and>
   find_contiguous_blocks
     \<lparr>BlockSize = 8, BlockCount = 16, data = base, ledger = [0xFF, 0]\<rparr> 1 = Inr 0 \<and>
   bucket_allocate \<lparr>BlockSize = 8, BlockCount = 16, data = base, ledger = [0xFF, 0]\<rparr> 8 =
     Inr (Some base, \<lparr>BlockSize = 8, BlockCount = 16, data = base, ledger = [0xFF, 0]\<rparr>)"
  by (simp add: bucket_eval ledger_eval)

text \<open>The example of the specification, blocks 0, 1 and 2 used and a request of one
  block, does return block 3.\<close>

lemma first_fit_example:
  "bucket_allocate \<lparr>BlockSize = 8, BlockCount = 16, data = base, ledger = [0xE0, 0]\<rparr> 8 =
     Inr (Some (base + 3 * 8),
          \<lparr>BlockSize = 8, BlockCount = 16, data = base, ledger = [0xF0, 0]\<rparr>)"
  by (simp add: bucket_eval)

text \<open>
  C2. The scan runs over all eight bits of every ledger byte, the padding positions
  after block \<open>BlockCount - 1\<close> included. In a fresh bucket of 3 blocks of 8 bytes, a
  request of 16 bytes takes the blocks 0 and 1. A second request of 16 bytes is served
  at position 2: its run covers position 3, a padding position, whose bit is set, and
  the second half of the 16 bytes handed out lies past the 24 bytes of the arena.
\<close>

theorem allocation_sets_padding_bit:
  "bucket_allocate (new_bucket base 8 3) 16 =
     Inr (Some base, \<lparr>BlockSize = 8, BlockCount = 3, data = base, ledger = [0xC0]\<rparr>) \<and>
   bucket_allocate \<lparr>BlockSize = 8, BlockCount = 3, data = base, ledger = [0xC0]\<rparr> 16 =
     Inr (Some (base + 2 * 8),
          \<lparr>BlockSize = 8, BlockCount = 3, data = base, ledger = [0xF0]\<rparr>) \<and>
   used_blocks \<lparr>BlockSize = 8, BlockCount = 3, data = base, ledger = [0xF0]\<rparr> =
     [0, 1, 2, 3] \<and>
   \<not> belongs \<lparr>BlockSize = 8, BlockCount = 3, data = base, ledger = [0xF0]\<rparr>
         (base + 2 * 8 + 8)"
  by (simp add: bucket_eval ledger_eval belongs_def)

text \<open>
  C7. A fresh bucket of 3 blocks of 8 bytes serves a request of 32 bytes, one block more
  than it has, and is left with the bits of its 3 blocks and of position 3 set. All
  blocks of the bucket are used now, and a request of 8 bytes is still served: at
  position 4, which is the address \<open>base + 32\<close>, past the arena.
\<close>

theorem exhausted_bucket_still_allocates:
  "bucket_allocate (new_bucket base 8 3) 32 =
     Inr (Some base, \<lparr>BlockSize = 8, BlockCount = 3, data = base, ledger = [0xF0]\<rparr>) \<and>
   bucket_allocate \<lparr>BlockSize = 8, BlockCount = 3, data = base, ledger = [0xF0]\<rparr> 8 =
     Inr (Some (base + 4 * 8),
          \<lparr>BlockSize = 8, BlockCount = 3, data = base, ledger = [0xF8]\<rparr>) \<and>
   \<not> belongs \<lparr>BlockSize = 8, BlockCount = 3, data = base, ledger = [0xF0]\<rparr>
         (base + 4 * 8)"
  by (simp add: bucket_eval belongs_def)

text \<open>
  C5. In the bucket of 16 blocks whose blocks 0 to 7 are used, a request of 8 bytes
  returns the base address, block 0, a block that was used before the call. The
  \<open>deallocate\<close> of that address with the same length clears the bit of block 0: the
  ledger goes from \<open>[0xFF, 0]\<close> before the \<open>allocate\<close> to \<open>[0x7F, 0]\<close>.
\<close>

theorem round_trip_clears_used_block:
  "bucket_allocate \<lparr>BlockSize = 8, BlockCount = 16, data = base, ledger = [0xFF, 0]\<rparr> 8 =
     Inr (Some base, \<lparr>BlockSize = 8, BlockCount = 16, data = base, ledger = [0xFF, 0]\<rparr>) \<and>
   bucket_deallocate
     \<lparr>BlockSize = 8, BlockCount = 16, data = base, ledger = [0xFF, 0]\<rparr> base 8 =
     Inr \<lparr>BlockSize = 8, BlockCount = 16, data = base, ledger = [0x7F, 0]\<rparr> \<and>
   block_used [0xFF, 0] 0 \<and> \<not> block_used [0x7F, 0] 0"
  by (simp add: bucket_eval ledger_eval)

section \<open>The dispatcher\<close>

lemma bucket_allocate_BlockSize:
  "bucket_allocate b bytes = Inr r \<Longrightarrow> BlockSize b \<noteq> 0"
  by (auto simp: bucket_allocate_def split: if_splits)

lemma score_index:
  "score bytes idx b = Inr opt \<Longrightarrow> index opt = idx"
  by (auto simp: score_def Let_def split: if_splits)

lemma score_total:
  "BlockSize b \<noteq> 0 \<Longrightarrow> \<exists>opt. score bytes idx b = Inr opt"
  by (simp add: score_def Let_def)

lemma fill_options_indices:
  "fill_options pool bytes idx = Inr opts \<Longrightarrow> map index opts = [idx ..< idx + length pool]"
proof (induction pool arbitrary: idx opts)
  case Nil
  then show ?case by simp
next
  case (Cons b bs)
  from Cons.prems obtain opt rest where
    s: "score bytes idx b = Inr opt" and r: "fill_options bs bytes (idx + 1) = Inr rest"
    and o: "opts = opt # rest"
    by (auto split: sum.splits)
  from Cons.IH [OF r] have "map index rest = [idx + 1 ..< idx + 1 + length bs]" .
  with s o show ?case by (simp add: score_index upt_rec)
qed

lemma fill_options_total:
  "\<forall>b \<in> set pool. BlockSize b \<noteq> 0 \<Longrightarrow> \<exists>opts. fill_options pool bytes idx = Inr opts"
proof (induction pool arbitrary: idx)
  case Nil
  then show ?case by simp
next
  case (Cons b bs)
  then obtain opt where "score bytes idx b = Inr opt"
    using score_total [of b bytes idx] by auto
  moreover from Cons obtain rest where "fill_options bs bytes (idx + 1) = Inr rest"
    by fastforce
  ultimately show ?case by simp
qed

lemma set_insert_info: "set (insert_info x ys) = insert x (set ys)"
  by (induction ys) auto

lemma set_std_sort: "set (std_sort xs) = set xs"
  by (induction xs) (auto simp: set_insert_info)

lemma try_options_all_none:
  assumes "\<forall>b \<in> set pool. \<exists>b'. bucket_allocate b bytes = Inr (None, b')"
      and "\<forall>opt \<in> set opts. index opt < length pool"
  shows "try_options opts pool bytes = (Inl bad_alloc, pool)"
  using assms(2)
proof (induction opts)
  case Nil
  then show ?case by simp
next
  case (Cons opt rest)
  then have i: "index opt < length pool" by simp
  then have "pool ! index opt \<in> set pool" by simp
  with assms(1) obtain b' where "bucket_allocate (pool ! index opt) bytes = Inr (None, b')"
    by blast
  with Cons i show ?case by simp
qed

lemma allocate_all_none:
  assumes "\<forall>b \<in> set pool. \<exists>b'. bucket_allocate b bytes = Inr (None, b')"
  shows "MemoryPoolAllocator_allocate pool bytes = (Inl bad_alloc, pool)"
proof -
  from assms have "\<forall>b \<in> set pool. BlockSize b \<noteq> 0"
    using bucket_allocate_BlockSize by blast
  then obtain opts where f: "fill_options pool bytes 0 = Inr opts"
    using fill_options_total by blast
  then have "index ` set opts = {0 ..< length pool}"
    using fill_options_indices [OF f] by (metis add_0 set_map set_upt)
  then have "\<forall>opt \<in> set (std_sort opts). index opt < length pool"
    by (auto simp: set_std_sort)
  with assms have "try_options (std_sort opts) pool bytes = (Inl bad_alloc, pool)"
    by (rule try_options_all_none)
  with f show ?thesis by (simp add: MemoryPoolAllocator_allocate_def)
qed

text \<open>
  C4. When \<open>allocate\<close> of every bucket of the pool returns \<open>nullptr\<close> for the request,
  \<open>allocate\<close> of the dispatcher throws \<open>std::bad_alloc\<close> and the pool, so every ledger,
  is what it was before the call.
\<close>

theorem pool_exhaustion_is_bad_alloc:
  assumes "\<forall>b \<in> set pool. \<exists>b'. bucket_allocate b bytes = Inr (None, b')"
  shows "MemoryPoolAllocator_allocate pool bytes = (Inl bad_alloc, pool)"
  using assms by (rule allocate_all_none)

lemma full_bucket_8:
  "bucket_allocate \<lparr>BlockSize = 8, BlockCount = 16, data = 1000, ledger = [0xFF, 0xFF]\<rparr> 8 =
     Inr (None, \<lparr>BlockSize = 8, BlockCount = 16, data = 1000, ledger = [0xFF, 0xFF]\<rparr>)"
  by (simp add: bucket_eval)

lemma full_bucket_24:
  "bucket_allocate \<lparr>BlockSize = 24, BlockCount = 8, data = 5000, ledger = [0xFF]\<rparr> 8 =
     Inr (None, \<lparr>BlockSize = 24, BlockCount = 8, data = 5000, ledger = [0xFF]\<rparr>)"
  by (simp add: bucket_eval)

theorem pool_exhaustion_is_bad_alloc_witness:
  "bucket_allocate \<lparr>BlockSize = 8, BlockCount = 16, data = 1000, ledger = [0xFF, 0xFF]\<rparr> 8 =
     Inr (None, \<lparr>BlockSize = 8, BlockCount = 16, data = 1000, ledger = [0xFF, 0xFF]\<rparr>) \<and>
   bucket_allocate \<lparr>BlockSize = 24, BlockCount = 8, data = 5000, ledger = [0xFF]\<rparr> 8 =
     Inr (None, \<lparr>BlockSize = 24, BlockCount = 8, data = 5000, ledger = [0xFF]\<rparr>) \<and>
   MemoryPoolAllocator_allocate
     [\<lparr>BlockSize = 8, BlockCount = 16, data = 1000, ledger = [0xFF, 0xFF]\<rparr>,
      \<lparr>BlockSize = 24, BlockCount = 8, data = 5000, ledger = [0xFF]\<rparr>] 8 =
   (Inl bad_alloc,
     [\<lparr>BlockSize = 8, BlockCount = 16, data = 1000, ledger = [0xFF, 0xFF]\<rparr>,
      \<lparr>BlockSize = 24, BlockCount = 8, data = 5000, ledger = [0xFF]\<rparr>])"
  using pool_exhaustion_is_bad_alloc
    [of "[\<lparr>BlockSize = 8, BlockCount = 16, data = 1000, ledger = [0xFF, 0xFF]\<rparr>,
          \<lparr>BlockSize = 24, BlockCount = 8, data = 5000, ledger = [0xFF]\<rparr>]" 8]
  by (simp add: full_bucket_8 full_bucket_24)

text \<open>
  C8. When \<open>belongs\<close> is false of the address for every bucket of the pool, that is when
  the address is in no arena, \<open>deallocate\<close> of the dispatcher returns normally and the
  pool is unchanged.
\<close>

theorem foreign_deallocate_is_noop:
  "\<forall>b \<in> set pool. \<not> belongs b ptr \<Longrightarrow>
   MemoryPoolAllocator_deallocate pool ptr n = Inr pool"
  by (induction pool) auto

theorem foreign_deallocate_is_noop_witness:
  "\<not> belongs (new_bucket 1000 8 16) 10 \<and> \<not> belongs (new_bucket 5000 24 16) 10 \<and>
   MemoryPoolAllocator_deallocate [new_bucket 1000 8 16, new_bucket 5000 24 16] 10 10 =
     Inr [new_bucket 1000 8 16, new_bucket 5000 24 16]"
  using foreign_deallocate_is_noop [of "[new_bucket 1000 8 16, new_bucket 5000 24 16]" 10 10]
  by (simp add: belongs_def new_bucket_def)

section \<open>Scores and their order\<close>

text \<open>
  The wrap-around arithmetic of the score agrees with the arithmetic of the natural
  numbers: for \<open>BlockSize < bytes\<close> the block count is the quotient rounded up, and the
  product \<open>n * BlockSize\<close>, which may exceed 64 bits, still yields the true waste.
\<close>

lemma blocks_needed_unat:
  assumes "BlockSize b < bytes" and "BlockSize b \<noteq> 0"
  shows "unat (1 + ((bytes - 1) div BlockSize b)) =
         (unat bytes + unat (BlockSize b) - 1) div unat (BlockSize b)"
proof -
  from assms(1) have nz: "bytes \<noteq> 0" by (auto simp: word_less_nat_alt)
  then have one: "1 \<le> bytes" by (simp add: word_le_nat_alt unat_gt_0 Suc_leI)
  have pos: "0 < unat (BlockSize b)" using assms(2) by (simp add: unat_gt_0)
  have B: "0 < unat bytes" using nz by (simp add: unat_gt_0)
  have q: "unat ((bytes - 1) div BlockSize b) = (unat bytes - 1) div unat (BlockSize b)"
    using one by (simp add: unat_div unat_sub)
  have "(unat bytes - 1) div unat (BlockSize b) \<le> unat bytes - 1"
    by (rule div_le_dividend)
  also have "\<dots> < 2 ^ 64 - 1"
    using unsigned_less [of bytes, where ?'a = nat] B by simp
  finally have small: "unat (1 :: size_t) + unat ((bytes - 1) div BlockSize b) < 2 ^ 64"
    by (simp add: q)
  have "unat (1 + ((bytes - 1) div BlockSize b)) =
        1 + (unat bytes - 1) div unat (BlockSize b)"
    using small q by (simp add: unat_add_lem [THEN iffD1])
  also have "\<dots> = (unat bytes - 1 + unat (BlockSize b)) div unat (BlockSize b)"
    using pos by (subst div_add_self2) simp_all
  also have "\<dots> = (unat bytes + unat (BlockSize b) - 1) div unat (BlockSize b)"
    using B by simp
  finally show ?thesis .
qed


lemma waste_unat:
  assumes "BlockSize b < bytes" and "BlockSize b \<noteq> 0"
  shows "unat ((1 + ((bytes - 1) div BlockSize b)) * BlockSize b - bytes) + unat bytes =
         unat (1 + ((bytes - 1) div BlockSize b)) * unat (BlockSize b)"
proof -
  define S where "S = unat (BlockSize b)"
  define B where "B = unat bytes"
  define N where "N = (B + S - 1) div S"
  have n: "unat (1 + ((bytes - 1) div BlockSize b)) = N"
    using blocks_needed_unat [OF assms] by (simp add: N_def S_def B_def)
  have pos: "0 < S" using assms(2) by (simp add: S_def unat_gt_0)
  have lt: "S < B" using assms(1) by (simp add: S_def B_def word_less_nat_alt)
  have B64: "B < 2 ^ 64" unfolding B_def using unsigned_less [of bytes, where ?'a = nat] by simp
  have dm: "N * S + (B + S - 1) mod S = B + S - 1"
    unfolding N_def by (rule div_mult_mod_eq)
  have ml: "(B + S - 1) mod S < S" using pos by simp
  from dm ml pos have up: "N * S < B + S" by linarith
  from dm ml pos have low: "B \<le> N * S" by linarith
  have w: "(1 + ((bytes - 1) div BlockSize b)) * BlockSize b - bytes =
           (of_nat (N * S - B) :: size_t)"
  proof -
    have "(1 + ((bytes - 1) div BlockSize b)) * BlockSize b - bytes =
          (of_nat N :: size_t) * of_nat S - of_nat B"
      using n by (metis B_def S_def of_nat_unat ucast_id)
    also have "\<dots> = of_nat (N * S - B)"
      using low by (simp add: of_nat_diff)
    finally show ?thesis .
  qed
  have "N * S - B < 2 ^ 64" using up lt B64 by linarith
  then have "unat (of_nat (N * S - B) :: size_t) = N * S - B"
    by (simp add: unat_of_nat)
  with w low n show ?thesis by (simp add: S_def B_def)
qed


lemma score_values:
  assumes "score bytes idx b = Inr opt"
  shows "(bytes \<le> BlockSize b \<longrightarrow>
            block_count opt = 1 \<and> waste opt = BlockSize b - bytes \<and>
            unat (waste opt) + unat bytes = unat (BlockSize b)) \<and>
         (BlockSize b < bytes \<longrightarrow>
            unat (block_count opt) =
              (unat bytes + unat (BlockSize b) - 1) div unat (BlockSize b) \<and>
            unat (waste opt) + unat bytes = unat (block_count opt) * unat (BlockSize b))"
proof (cases "bytes \<le> BlockSize b")
  case True
  then have "unat (BlockSize b - bytes) + unat bytes = unat (BlockSize b)"
    by (simp add: unat_sub word_le_nat_alt)
  with True assms show ?thesis by (auto simp: score_def)
next
  case False
  then have lt: "BlockSize b < bytes" by simp
  with assms have nz: "BlockSize b \<noteq> 0"
    by (auto simp: score_def split: if_splits)
  from assms False nz have
    "block_count opt = 1 + ((bytes - 1) div BlockSize b)" and
    "waste opt = (1 + ((bytes - 1) div BlockSize b)) * BlockSize b - bytes"
    by (auto simp: score_def Let_def)
  with blocks_needed_unat [OF lt nz] waste_unat [OF lt nz] False show ?thesis
    by simp
qed

lemma fill_options_scores:
  "fill_options pool bytes idx = Inr opts \<Longrightarrow> opt \<in> set opts \<Longrightarrow>
   idx \<le> index opt \<and> index opt < idx + length pool \<and>
   score bytes (index opt) (pool ! (index opt - idx)) = Inr opt"
proof (induction pool arbitrary: idx opts)
  case Nil
  then show ?case by simp
next
  case (Cons b bs)
  from Cons.prems(1) obtain o1 rest where
    s: "score bytes idx b = Inr o1" and r: "fill_options bs bytes (idx + 1) = Inr rest"
    and o: "opts = o1 # rest"
    by (auto split: sum.splits)
  show ?case
  proof (cases "opt = o1")
    case True
    with s show ?thesis by (simp add: score_index)
  next
    case False
    with Cons.prems(2) o have "opt \<in> set rest" by simp
    from Cons.IH [OF r this] have
      lo: "idx + 1 \<le> index opt" and hi: "index opt < idx + 1 + length bs" and
      sc: "score bytes (index opt) (bs ! (index opt - (idx + 1))) = Inr opt"
      by simp_all
    from lo have "(b # bs) ! (index opt - idx) = bs ! (index opt - (idx + 1))"
      by (simp add: nth_Cons')
    with lo hi sc show ?thesis by simp
  qed
qed

text \<open>\<open>std::sort\<close> returns its input rearranged, ascending for \<open>operator<\<close>: no element
  is less than one that stands before it.\<close>

lemma info_less_order:
  "\<not> info_less b a \<longleftrightarrow>
   waste a < waste b \<or> (waste a = waste b \<and> block_count a \<le> block_count b)"
  by (auto simp: info_less_def)

lemma info_less_asym: "info_less a b \<Longrightarrow> \<not> info_less b a"
  by (auto simp: info_less_def split: if_splits)

lemma info_not_less_trans:
  "\<not> info_less b a \<Longrightarrow> \<not> info_less c b \<Longrightarrow> \<not> info_less c a"
  by (auto simp: info_less_def split: if_splits)

lemma sorted_insert_info:
  "sorted_wrt (\<lambda>a b. \<not> info_less b a) ys \<Longrightarrow>
   sorted_wrt (\<lambda>a b. \<not> info_less b a) (insert_info x ys)"
proof (induction ys)
  case Nil
  then show ?case by simp
next
  case (Cons y ys)
  show ?case
  proof (cases "info_less y x")
    case True
    with Cons show ?thesis
      by (auto simp: set_insert_info dest: info_less_asym)
  next
    case False
    from Cons.prems have "\<forall>z \<in> set ys. \<not> info_less z y" by simp
    with False have "\<forall>z \<in> set ys. \<not> info_less z x"
      using info_not_less_trans by blast
    with False Cons.prems show ?thesis by simp
  qed
qed

lemma sorted_std_sort: "sorted_wrt (\<lambda>a b. \<not> info_less b a) (std_sort xs)"
  by (induction xs) (auto intro: sorted_insert_info)

lemma distinct_insert_info:
  "distinct (map index (insert_info x ys)) \<longleftrightarrow>
   index x \<notin> index ` set ys \<and> distinct (map index ys)"
  by (induction ys) (auto simp: set_insert_info)

lemma distinct_std_sort:
  "distinct (map index (std_sort xs)) \<longleftrightarrow> distinct (map index xs)"
  by (induction xs) (auto simp: distinct_insert_info set_std_sort)

text \<open>The second loop returns what the first bucket that does not return \<open>nullptr\<close>
  returns, and stores that bucket at its position of the pool.\<close>

lemma try_options_first_success:
  assumes "\<forall>opt \<in> set opts. index opt < length pool"
      and "k < length opts"
      and "\<forall>j < k. \<exists>b''. bucket_allocate (pool ! index (opts ! j)) bytes = Inr (None, b'')"
      and "bucket_allocate (pool ! index (opts ! k)) bytes = Inr (Some p, b')"
  shows "try_options opts pool bytes = (Inr p, pool[index (opts ! k) := b'])"
  using assms
proof (induction opts arbitrary: k)
  case Nil
  then show ?case by simp
next
  case (Cons opt rest)
  show ?case
  proof (cases k)
    case 0
    with Cons.prems show ?thesis by simp
  next
    case (Suc k')
    from Cons.prems(3) Suc obtain b'' where
      "bucket_allocate (pool ! index opt) bytes = Inr (None, b'')"
      by fastforce
    moreover from Cons.prems(3) Suc have
      "\<forall>j < k'. \<exists>b''. bucket_allocate (pool ! index (rest ! j)) bytes = Inr (None, b'')"
      by fastforce
    ultimately show ?thesis
      using Cons.IH [of k'] Cons.prems Suc by simp
  qed
qed

text \<open>
  C3. In a pool whose buckets have a block size other than zero, \<open>allocate\<close> of the
  dispatcher works on a list \<open>opts\<close> of scores with these properties. Every bucket has
  exactly one score. The score of a bucket with \<open>bytes \<le> BlockSize\<close> is one block and
  the waste \<open>BlockSize - bytes\<close>; the score of any other bucket is the quotient of
  \<open>bytes\<close> by \<open>BlockSize\<close> rounded up, and the waste that many blocks leave. The list
  ascends in waste, and in block count where the waste is equal. The call returns the
  pointer of the first bucket of the list that does not return \<open>nullptr\<close>.
\<close>

theorem dispatcher_tries_buckets_by_waste:
  assumes "\<forall>b \<in> set pool. BlockSize b \<noteq> 0"
  shows "\<exists>opts :: info list.
    distinct (map index opts) \<and> set (map index opts) = {0 ..< length pool} \<and>
    (\<forall>opt \<in> set opts.
       (bytes \<le> BlockSize (pool ! index opt) \<longrightarrow>
          block_count opt = 1 \<and>
          waste opt = BlockSize (pool ! index opt) - bytes \<and>
          unat (waste opt) + unat bytes = unat (BlockSize (pool ! index opt))) \<and>
       (BlockSize (pool ! index opt) < bytes \<longrightarrow>
          unat (block_count opt) =
            (unat bytes + unat (BlockSize (pool ! index opt)) - 1)
              div unat (BlockSize (pool ! index opt)) \<and>
          unat (waste opt) + unat bytes =
            unat (block_count opt) * unat (BlockSize (pool ! index opt)))) \<and>
    sorted_wrt (\<lambda>a b. waste a < waste b \<or>
                  (waste a = waste b \<and> block_count a \<le> block_count b)) opts \<and>
    (\<forall>k < length opts. \<forall>p b'.
       (\<forall>j < k. \<exists>b''. bucket_allocate (pool ! index (opts ! j)) bytes = Inr (None, b'')) \<and>
       bucket_allocate (pool ! index (opts ! k)) bytes = Inr (Some p, b') \<longrightarrow>
       MemoryPoolAllocator_allocate pool bytes = (Inr p, pool[index (opts ! k) := b']))"
proof -
  from assms obtain raw where f: "fill_options pool bytes 0 = Inr raw"
    using fill_options_total by blast
  define opts where "opts = std_sort raw"
  have idx: "map index raw = [0 ..< length pool]"
    using fill_options_indices [OF f] by simp
  have d: "distinct (map index opts)"
    unfolding opts_def by (simp add: distinct_std_sort idx)
  have s: "set (map index opts) = {0 ..< length pool}"
  proof -
    have "set (map index opts) = set (map index raw)"
      by (simp add: opts_def set_std_sort)
    then show ?thesis by (simp add: idx)
  qed
  have v: "\<forall>opt \<in> set opts.
       (bytes \<le> BlockSize (pool ! index opt) \<longrightarrow>
          block_count opt = 1 \<and>
          waste opt = BlockSize (pool ! index opt) - bytes \<and>
          unat (waste opt) + unat bytes = unat (BlockSize (pool ! index opt))) \<and>
       (BlockSize (pool ! index opt) < bytes \<longrightarrow>
          unat (block_count opt) =
            (unat bytes + unat (BlockSize (pool ! index opt)) - 1)
              div unat (BlockSize (pool ! index opt)) \<and>
          unat (waste opt) + unat bytes =
            unat (block_count opt) * unat (BlockSize (pool ! index opt)))"
  proof
    fix opt assume "opt \<in> set opts"
    then have "opt \<in> set raw" by (simp add: opts_def set_std_sort)
    from fill_options_scores [OF f this]
    have "score bytes (index opt) (pool ! index opt) = Inr opt" by simp
    then show "(bytes \<le> BlockSize (pool ! index opt) \<longrightarrow>
          block_count opt = 1 \<and>
          waste opt = BlockSize (pool ! index opt) - bytes \<and>
          unat (waste opt) + unat bytes = unat (BlockSize (pool ! index opt))) \<and>
       (BlockSize (pool ! index opt) < bytes \<longrightarrow>
          unat (block_count opt) =
            (unat bytes + unat (BlockSize (pool ! index opt)) - 1)
              div unat (BlockSize (pool ! index opt)) \<and>
          unat (waste opt) + unat bytes =
            unat (block_count opt) * unat (BlockSize (pool ! index opt)))"
      by (rule score_values)
  qed
  have o: "sorted_wrt (\<lambda>a b. waste a < waste b \<or>
                  (waste a = waste b \<and> block_count a \<le> block_count b)) opts"
    using sorted_std_sort [of raw] by (simp add: opts_def info_less_order)
  have inb: "\<forall>opt \<in> set opts. index opt < length pool"
    using s by auto
  have t: "\<forall>k < length opts. \<forall>p b'.
       (\<forall>j < k. \<exists>b''. bucket_allocate (pool ! index (opts ! j)) bytes = Inr (None, b'')) \<and>
       bucket_allocate (pool ! index (opts ! k)) bytes = Inr (Some p, b') \<longrightarrow>
       MemoryPoolAllocator_allocate pool bytes = (Inr p, pool[index (opts ! k) := b'])"
  proof (intro allI impI)
    fix k p b'
    assume k: "k < length opts"
      and h: "(\<forall>j < k. \<exists>b''. bucket_allocate (pool ! index (opts ! j)) bytes = Inr (None, b'')) \<and>
       bucket_allocate (pool ! index (opts ! k)) bytes = Inr (Some p, b')"
    from try_options_first_success [OF inb k] h
    have "try_options opts pool bytes = (Inr p, pool[index (opts ! k) := b'])" by blast
    with f show "MemoryPoolAllocator_allocate pool bytes = (Inr p, pool[index (opts ! k) := b'])"
      by (simp add: MemoryPoolAllocator_allocate_def opts_def)
  qed
  show ?thesis
    by (rule exI [of _ opts]) (intro conjI; fact)
qed


theorem dispatcher_tries_buckets_by_waste_witness:
  "BlockSize (new_bucket 1000 8 16) \<noteq> 0 \<and> BlockSize (new_bucket 5000 24 16) \<noteq> 0 \<and>
   score 20 0 (new_bucket 1000 8 16) = Inr \<lparr>index = 0, block_count = 3, waste = 4\<rparr> \<and>
   score 20 1 (new_bucket 5000 24 16) = Inr \<lparr>index = 1, block_count = 1, waste = 4\<rparr> \<and>
   MemoryPoolAllocator_allocate [new_bucket 1000 8 16, new_bucket 5000 24 16] 20 =
     (Inr 5000,
      [new_bucket 1000 8 16,
       \<lparr>BlockSize = 24, BlockCount = 16, data = 5000, ledger = [0x80, 0]\<rparr>])"
proof -
  have h: "\<forall>b \<in> set [new_bucket 1000 8 16, new_bucket 5000 24 16]. BlockSize b \<noteq> 0"
    by (simp add: new_bucket_def)
  have e: "MemoryPoolAllocator_allocate [new_bucket 1000 8 16, new_bucket 5000 24 16] 20 =
     (Inr 5000,
      [new_bucket 1000 8 16,
       \<lparr>BlockSize = 24, BlockCount = 16, data = 5000, ledger = [0x80, 0]\<rparr>])"
    by (simp add: MemoryPoolAllocator_allocate_def score_def info_less_def bucket_eval)
  have s: "score 20 0 (new_bucket 1000 8 16) = Inr \<lparr>index = 0, block_count = 3, waste = 4\<rparr>"
    "score 20 1 (new_bucket 5000 24 16) = Inr \<lparr>index = 1, block_count = 1, waste = 4\<rparr>"
    by (simp_all add: score_def new_bucket_def)
  from dispatcher_tries_buckets_by_waste [OF h, of 20] e s show ?thesis
    by (simp add: new_bucket_def)
qed

section \<open>Bit-range updates\<close>

text \<open>One unfolding of each \<open>while\<close> loop, and the loop at its exit.\<close>

lemma set_used_loop_done: "set_used_loop byte_index 0 l = Inr l"
  by (simp add: set_used_loop.simps)

lemma set_used_loop_step:
  "0 < r \<Longrightarrow>
   set_used_loop byte_index r l =
     (if byte_index + 1 < length l then
        set_used_loop (byte_index + 1) (r - min r 8)
          (l[byte_index + 1 := l ! (byte_index + 1) OR
               (if min r 8 < 8 then 0xFF - low_bits (8 - min r 8) else 0xFF)])
      else Inl OutOfBounds)"
  by (subst set_used_loop.simps) (simp add: Let_def)

lemma set_free_loop_done: "set_free_loop byte_index 0 l = Inr l"
  by (simp add: set_free_loop.simps)

lemma set_free_loop_step:
  "0 < r \<Longrightarrow>
   set_free_loop byte_index r l =
     (if byte_index + 1 < length l then
        set_free_loop (byte_index + 1) (r - min r 8)
          (l[byte_index + 1 := l ! (byte_index + 1) AND
               NOT (if min r 8 < 8 then 0xFF - low_bits (8 - min r 8) else 0xFF)])
      else Inl OutOfBounds)"
  by (subst set_free_loop.simps) (simp add: Let_def)

text \<open>
  A loop that returns keeps the length of the ledger, leaves the bytes up to
  \<open>byte_index\<close> alone, and returns the same ledger when it is run again on its result:
  each byte it touches already has the mask's bits.
\<close>

lemma set_used_loop_props:
  "set_used_loop byte_index r l = Inr l' \<Longrightarrow>
   length l' = length l \<and> (\<forall>k \<le> byte_index. l' ! k = l ! k) \<and>
   set_used_loop byte_index r l' = Inr l'"
proof (induction r arbitrary: byte_index l rule: less_induct)
  case (less r)
  show ?case
  proof (cases "r = 0")
    case True
    with less.prems show ?thesis by (simp add: set_used_loop_done)
  next
    case False
    define m :: uint8_t
      where "m = (if min r 8 < 8 then 0xFF - low_bits (8 - min r 8) else 0xFF)"
    define l1 where "l1 = l[byte_index + 1 := l ! (byte_index + 1) OR m]"
    from False have pos: "0 < r" by simp
    from less.prems have inb: "byte_index + 1 < length l"
      by (simp add: set_used_loop_step [OF pos] split: if_splits)
    with less.prems have rec: "set_used_loop (byte_index + 1) (r - min r 8) l1 = Inr l'"
      by (simp add: set_used_loop_step [OF pos] l1_def m_def)
    from pos have "r - min r 8 < r" by (simp add: min_def)
    from less.IH [OF this rec] have
      len: "length l' = length l1" and
      frame: "\<forall>k \<le> byte_index + 1. l' ! k = l1 ! k" and
      idem: "set_used_loop (byte_index + 1) (r - min r 8) l' = Inr l'"
      by simp_all
    from len have len': "length l' = length l" by (simp add: l1_def)
    from frame have below: "\<forall>k \<le> byte_index. l' ! k = l ! k"
      by (simp add: l1_def)
    from frame inb have "l' ! (byte_index + 1) = l ! (byte_index + 1) OR m"
      by (simp add: l1_def)
    then have "l' ! (byte_index + 1) OR m = l' ! (byte_index + 1)"
      by (simp add: or.assoc)
    then have "l'[byte_index + 1 := l' ! (byte_index + 1) OR m] = l'"
      by simp
    with idem inb len' have "set_used_loop byte_index r l' = Inr l'"
      by (simp add: set_used_loop_step [OF pos] m_def)
    with len' below show ?thesis by simp
  qed
qed

lemma set_free_loop_props:
  "set_free_loop byte_index r l = Inr l' \<Longrightarrow>
   length l' = length l \<and> (\<forall>k \<le> byte_index. l' ! k = l ! k) \<and>
   set_free_loop byte_index r l' = Inr l'"
proof (induction r arbitrary: byte_index l rule: less_induct)
  case (less r)
  show ?case
  proof (cases "r = 0")
    case True
    with less.prems show ?thesis by (simp add: set_free_loop_done)
  next
    case False
    define m :: uint8_t
      where "m = NOT (if min r 8 < 8 then 0xFF - low_bits (8 - min r 8) else 0xFF)"
    define l1 where "l1 = l[byte_index + 1 := l ! (byte_index + 1) AND m]"
    from False have pos: "0 < r" by simp
    from less.prems have inb: "byte_index + 1 < length l"
      by (simp add: set_free_loop_step [OF pos] split: if_splits)
    with less.prems have rec: "set_free_loop (byte_index + 1) (r - min r 8) l1 = Inr l'"
      by (simp add: set_free_loop_step [OF pos] l1_def m_def)
    from pos have "r - min r 8 < r" by (simp add: min_def)
    from less.IH [OF this rec] have
      len: "length l' = length l1" and
      frame: "\<forall>k \<le> byte_index + 1. l' ! k = l1 ! k" and
      idem: "set_free_loop (byte_index + 1) (r - min r 8) l' = Inr l'"
      by simp_all
    from len have len': "length l' = length l" by (simp add: l1_def)
    from frame have below: "\<forall>k \<le> byte_index. l' ! k = l ! k"
      by (simp add: l1_def)
    from frame inb have "l' ! (byte_index + 1) = l ! (byte_index + 1) AND m"
      by (simp add: l1_def)
    then have "l' ! (byte_index + 1) AND m = l' ! (byte_index + 1)"
      by (simp add: and.assoc)
    then have "l'[byte_index + 1 := l' ! (byte_index + 1) AND m] = l'"
      by simp
    with idem inb len' have "set_free_loop byte_index r l' = Inr l'"
      by (simp add: set_free_loop_step [OF pos] m_def)
    with len' below show ?thesis by simp
  qed
qed

lemma set_used_idem:
  assumes "set_used idx n l = Inr l'"
  shows "set_used idx n l' = Inr l'"
proof -
  define bi where "bi = unat (idx div 8)"
  define m :: uint8_t where
    "m = (if unat n < 8 - unat (idx mod 8)
          then low_bits (8 - unat (idx mod 8)) - low_bits (8 - unat (idx mod 8) - unat n)
          else low_bits (8 - unat (idx mod 8)))"
  define r where "r = unat n - min (unat n) (8 - unat (idx mod 8))"
  define l1 where "l1 = l[bi := l ! bi OR m]"
  from assms have inb: "bi < length l"
    by (simp add: set_used_def Let_def bi_def split: if_splits)
  with assms have loop: "set_used_loop bi r l1 = Inr l'"
    by (simp add: set_used_def Let_def bi_def m_def r_def l1_def)
  from set_used_loop_props [OF loop] have
    len: "length l' = length l1" and
    frame: "\<forall>k \<le> bi. l' ! k = l1 ! k" and
    idem: "set_used_loop bi r l' = Inr l'"
    by simp_all
  from frame inb have "l' ! bi = l ! bi OR m" by (simp add: l1_def)
  then have "l' ! bi OR m = l' ! bi" by (simp add: or.assoc)
  then have "l'[bi := l' ! bi OR m] = l'" by simp
  moreover from len inb have "bi < length l'" by (simp add: l1_def)
  ultimately show ?thesis
    using idem
    by (simp add: set_used_def Let_def bi_def [symmetric] m_def [symmetric] r_def [symmetric])
qed

lemma set_free_idem:
  assumes "set_free idx n l = Inr l'"
  shows "set_free idx n l' = Inr l'"
proof -
  define bi where "bi = unat (idx div 8)"
  define m :: uint8_t where
    "m = NOT (if unat n < 8 - unat (idx mod 8)
          then low_bits (8 - unat (idx mod 8)) - low_bits (8 - unat (idx mod 8) - unat n)
          else low_bits (8 - unat (idx mod 8)))"
  define r where "r = unat n - min (unat n) (8 - unat (idx mod 8))"
  define l1 where "l1 = l[bi := l ! bi AND m]"
  from assms have inb: "bi < length l"
    by (simp add: set_free_def Let_def bi_def split: if_splits)
  with assms have loop: "set_free_loop bi r l1 = Inr l'"
    by (simp add: set_free_def Let_def bi_def m_def r_def l1_def)
  from set_free_loop_props [OF loop] have
    len: "length l' = length l1" and
    frame: "\<forall>k \<le> bi. l' ! k = l1 ! k" and
    idem: "set_free_loop bi r l' = Inr l'"
    by simp_all
  from frame inb have "l' ! bi = l ! bi AND m" by (simp add: l1_def)
  then have "l' ! bi AND m = l' ! bi" by (simp add: and.assoc)
  then have "l'[bi := l' ! bi AND m] = l'" by simp
  moreover from len inb have "bi < length l'" by (simp add: l1_def)
  ultimately show ?thesis
    using idem
    by (simp add: set_free_def Let_def bi_def [symmetric] m_def [symmetric] r_def [symmetric])
qed

text \<open>A run that lies inside the ledger is set, and cleared, without a fault.\<close>

lemma set_used_loop_in_range:
  "r = 0 \<or> 8 * (byte_index + 1) + r \<le> 8 * length l \<Longrightarrow>
   \<exists>l'. set_used_loop byte_index r l = Inr l'"
proof (induction r arbitrary: byte_index l rule: less_induct)
  case (less r)
  show ?case
  proof (cases "r = 0")
    case True
    then show ?thesis by (simp add: set_used_loop_done)
  next
    case False
    then have pos: "0 < r" by simp
    with less.prems have inb: "byte_index + 1 < length l" by simp
    from pos have dec: "r - min r 8 < r" by (simp add: min_def)
    have "r - min r 8 = 0 \<or>
          8 * (byte_index + 1 + 1) + (r - min r 8) \<le> 8 * length
            (l[byte_index + 1 := l ! (byte_index + 1) OR
               (if min r 8 < 8 then 0xFF - low_bits (8 - min r 8) else 0xFF)])"
      using less.prems pos by (auto simp: min_def)
    from less.IH [OF dec this] inb show ?thesis
      by (simp add: set_used_loop_step [OF pos])
  qed
qed

lemma set_free_loop_in_range:
  "r = 0 \<or> 8 * (byte_index + 1) + r \<le> 8 * length l \<Longrightarrow>
   \<exists>l'. set_free_loop byte_index r l = Inr l'"
proof (induction r arbitrary: byte_index l rule: less_induct)
  case (less r)
  show ?case
  proof (cases "r = 0")
    case True
    then show ?thesis by (simp add: set_free_loop_done)
  next
    case False
    then have pos: "0 < r" by simp
    with less.prems have inb: "byte_index + 1 < length l" by simp
    from pos have dec: "r - min r 8 < r" by (simp add: min_def)
    have "r - min r 8 = 0 \<or>
          8 * (byte_index + 1 + 1) + (r - min r 8) \<le> 8 * length
            (l[byte_index + 1 := l ! (byte_index + 1) AND
               NOT (if min r 8 < 8 then 0xFF - low_bits (8 - min r 8) else 0xFF)])"
      using less.prems pos by (auto simp: min_def)
    from less.IH [OF dec this] inb show ?thesis
      by (simp add: set_free_loop_step [OF pos])
  qed
qed

lemma set_used_in_range:
  assumes "unat idx < 8 * length l" and "unat idx + unat n \<le> 8 * length l"
  shows "\<exists>l'. set_used idx n l = Inr l'"
proof -
  have d: "unat (idx div 8) = unat idx div 8" and m: "unat (idx mod 8) = unat idx mod 8"
    by (simp_all add: unat_div unat_mod)
  from assms(1) have inb: "unat idx div 8 < length l" by simp
  have "unat n - min (unat n) (8 - unat idx mod 8) = 0 \<or>
        8 * (unat idx div 8 + 1) + (unat n - min (unat n) (8 - unat idx mod 8))
          \<le> 8 * length l"
    using assms(2) by (auto simp: min_def)
  then have "\<exists>l'. set_used_loop (unat idx div 8)
         (unat n - min (unat n) (8 - unat idx mod 8))
         (l[unat idx div 8 := l ! (unat idx div 8) OR
              (if unat n < 8 - unat idx mod 8
               then low_bits (8 - unat idx mod 8) - low_bits (8 - unat idx mod 8 - unat n)
               else low_bits (8 - unat idx mod 8))]) = Inr l'"
    by (intro set_used_loop_in_range) simp
  with inb show ?thesis
    by (simp add: set_used_def Let_def d m)
qed

lemma set_free_in_range:
  assumes "unat idx < 8 * length l" and "unat idx + unat n \<le> 8 * length l"
  shows "\<exists>l'. set_free idx n l = Inr l'"
proof -
  have d: "unat (idx div 8) = unat idx div 8" and m: "unat (idx mod 8) = unat idx mod 8"
    by (simp_all add: unat_div unat_mod)
  from assms(1) have inb: "unat idx div 8 < length l" by simp
  have "unat n - min (unat n) (8 - unat idx mod 8) = 0 \<or>
        8 * (unat idx div 8 + 1) + (unat n - min (unat n) (8 - unat idx mod 8))
          \<le> 8 * length l"
    using assms(2) by (auto simp: min_def)
  then have "\<exists>l'. set_free_loop (unat idx div 8)
         (unat n - min (unat n) (8 - unat idx mod 8))
         (l[unat idx div 8 := l ! (unat idx div 8) AND
              NOT (if unat n < 8 - unat idx mod 8
               then low_bits (8 - unat idx mod 8) - low_bits (8 - unat idx mod 8 - unat n)
               else low_bits (8 - unat idx mod 8))]) = Inr l'"
    by (intro set_free_loop_in_range) simp
  with inb show ?thesis
    by (simp add: set_free_def Let_def d m)
qed

lemma bucket_deallocate_idem:
  assumes "bucket_deallocate b ptr bytes = Inr b'"
  shows "bucket_deallocate b' ptr bytes = Inr b'"
proof -
  from assms have bs: "BlockSize b \<noteq> 0"
    by (auto simp: bucket_deallocate_def split: if_splits)
  define idx where "idx = (word_of_int (int ptr - int (data b)) :: size_t) div BlockSize b"
  define n where "n = 1 + ((bytes - 1) div BlockSize b)"
  from assms bs obtain l' where
    f: "set_free idx n (ledger b) = Inr l'" and b': "b' = b\<lparr>ledger := l'\<rparr>"
    by (auto simp: bucket_deallocate_def Let_def idx_def n_def split: sum.splits)
  from set_free_idem [OF f] bs b' show ?thesis
    by (simp add: bucket_deallocate_def Let_def idx_def n_def)
qed

text \<open>
  C10. When the run of \<open>n\<close> bits from position \<open>idx\<close> lies inside the ledger,
  \<open>set_free\<close> returns a ledger on which the same \<open>set_free\<close> changes nothing, and
  likewise \<open>set_used\<close>. Hence a \<open>deallocate\<close> that returns leaves a bucket on which
  the same \<open>deallocate\<close> changes nothing.
\<close>

theorem bit_range_updates_idempotent:
  "(unat idx < 8 * length l \<and> unat idx + unat n \<le> 8 * length l \<longrightarrow>
      (\<exists>l1. set_free idx n l = Inr l1 \<and> set_free idx n l1 = Inr l1) \<and>
      (\<exists>l2. set_used idx n l = Inr l2 \<and> set_used idx n l2 = Inr l2)) \<and>
   (bucket_deallocate b ptr bytes = Inr b' \<longrightarrow> bucket_deallocate b' ptr bytes = Inr b')"
proof (intro conjI impI)
  assume r: "unat idx < 8 * length l \<and> unat idx + unat n \<le> 8 * length l"
  then obtain l1 where "set_free idx n l = Inr l1"
    using set_free_in_range by blast
  then show "\<exists>l1. set_free idx n l = Inr l1 \<and> set_free idx n l1 = Inr l1"
    using set_free_idem by blast
  from r obtain l2 where "set_used idx n l = Inr l2"
    using set_used_in_range by blast
  then show "\<exists>l2. set_used idx n l = Inr l2 \<and> set_used idx n l2 = Inr l2"
    using set_used_idem by blast
next
  assume "bucket_deallocate b ptr bytes = Inr b'"
  then show "bucket_deallocate b' ptr bytes = Inr b'"
    by (rule bucket_deallocate_idem)
qed

theorem bit_range_updates_idempotent_witness:
  "set_free 5 6 [0xFF, 0xFF] = Inr [0xF8, 0x1F] \<and>
   set_free 5 6 [0xF8, 0x1F] = Inr [0xF8, 0x1F] \<and>
   set_used 5 6 [0, 0] = Inr [0x07, 0xE0] \<and>
   set_used 5 6 [0x07, 0xE0] = Inr [0x07, 0xE0] \<and>
   bucket_deallocate
     \<lparr>BlockSize = 8, BlockCount = 16, data = 1000, ledger = [0xFF, 0xFF]\<rparr> 1040 48 =
     Inr \<lparr>BlockSize = 8, BlockCount = 16, data = 1000, ledger = [0xF8, 0x1F]\<rparr> \<and>
   bucket_deallocate
     \<lparr>BlockSize = 8, BlockCount = 16, data = 1000, ledger = [0xF8, 0x1F]\<rparr> 1040 48 =
     Inr \<lparr>BlockSize = 8, BlockCount = 16, data = 1000, ledger = [0xF8, 0x1F]\<rparr>"
  using bit_range_updates_idempotent
    [of 5 "[0xFF, 0xFF]" 6
        "\<lparr>BlockSize = 8, BlockCount = 16, data = 1000, ledger = [0xFF, 0xFF]\<rparr>" 1040 48
        "\<lparr>BlockSize = 8, BlockCount = 16, data = 1000, ledger = [0xF8, 0x1F]\<rparr>"]
  by (simp add: bucket_eval)

section \<open>Which bits a bit-range update changes\<close>

text \<open>The masks, bit by bit. Position \<open>p\<close> of a byte, counted from its first block, is
  bit \<open>7 - p\<close>.\<close>

lemma block_used_bit:
  "block_used l k \<longleftrightarrow> bit (l ! (k div 8)) (7 - k mod 8)"
  by (simp add: block_used_def bit_iff_and_push_bit_not_eq_0)

lemma low_bits_mask: "low_bits c = mask c"
  by (simp add: low_bits_def mask_eq_exp_minus_1)

lemma bit_low_bits: "bit (low_bits c) j \<longleftrightarrow> j < c \<and> j < 8"
  by (auto simp: low_bits_mask bit_mask_iff)

lemma low_bits_diff:
  assumes "c \<le> a"
  shows "low_bits a - low_bits c = push_bit c (low_bits (a - c))"
proof -
  have "(2 :: uint8_t) ^ a = 2 ^ (a - c) * 2 ^ c"
    using assms by (simp flip: power_add)
  then show ?thesis
    by (simp add: low_bits_mask mask_eq_exp_minus_1 push_bit_eq_mult algebra_simps)
qed

lemma bit_low_bits_diff:
  "c \<le> a \<Longrightarrow> bit (low_bits a - low_bits c) j \<longleftrightarrow> c \<le> j \<and> j < a \<and> j < 8"
  by (auto simp: low_bits_diff bit_push_bit_iff bit_low_bits)

lemma full_byte: "(0xFF :: uint8_t) = low_bits 8"
  by (simp add: low_bits_def)

lemma bit_first_mask:
  assumes "p < 8" and "b0 < 8"
  shows "bit (if r < 8 - b0 then low_bits (8 - b0) - low_bits (8 - b0 - r)
               else low_bits (8 - b0)) (7 - p) \<longleftrightarrow> b0 \<le> p \<and> p < b0 + r"
  using assms by (auto simp: bit_low_bits bit_low_bits_diff)

lemma bit_next_mask:
  assumes "p < 8" and "0 < r"
  shows "bit (if min r 8 < 8 then 0xFF - low_bits (8 - min r 8) else (0xFF :: uint8_t))
           (7 - p) \<longleftrightarrow> p < r"
  using assms by (auto simp: full_byte bit_low_bits bit_low_bits_diff min_def)


text \<open>The positions of a run, byte by byte: those in the byte of its first position,
  and those in the bytes after it.\<close>

lemma run_split:
  "(k div 8 = i div 8 \<and> i mod 8 \<le> k mod 8 \<and> k mod 8 < i mod 8 + n) \<or>
   (8 * (i div 8 + 1) \<le> k \<and> k < 8 * (i div 8 + 1) + (n - min n (8 - i mod 8))) \<longleftrightarrow>
   i \<le> k \<and> k < i + (n :: nat)"
proof -
  define q where "q = i div 8"
  define b where "b = i mod 8"
  define q' where "q' = k div 8"
  define p where "p = k mod 8"
  have i: "i = 8 * q + b" and b: "b < 8" by (simp_all add: q_def b_def)
  have k: "k = 8 * q' + p" and p: "p < 8" by (simp_all add: q'_def p_def)
  consider "q' < q" | "q' = q" | "q < q'" by linarith
  then have "(q' = q \<and> b \<le> p \<and> p < b + n) \<or>
        (8 * (q + 1) \<le> k \<and> k < 8 * (q + 1) + (n - min n (8 - b))) \<longleftrightarrow>
        i \<le> k \<and> k < i + n"
  proof cases
    case 1
    with i k b p show ?thesis by (auto simp: min_def)
  next
    case 2
    with i k b p show ?thesis by (auto simp: min_def)
  next
    case 3
    with i k b p show ?thesis by (auto simp: min_def)
  qed
  then show ?thesis by (simp only: q_def b_def q'_def p_def)
qed

lemma loop_split:
  "(k div 8 = byte_index + 1 \<and> k mod 8 < r) \<or>
   (8 * (byte_index + 2) \<le> k \<and> k < 8 * (byte_index + 2) + (r - min r 8)) \<longleftrightarrow>
   8 * (byte_index + 1) \<le> k \<and> k < 8 * (byte_index + 1) + (r :: nat)"
  using run_split [of k "8 * (byte_index + 1)" r] by simp

text \<open>One byte of the ledger replaced: the blocks of the other bytes keep their bit.\<close>

lemma block_used_update:
  assumes "byte_index < length l" and "k < 8 * length l"
  shows "block_used (l[byte_index := w]) k \<longleftrightarrow>
         (if k div 8 = byte_index then bit w (7 - k mod 8) else block_used l k)"
  using assms by (simp add: block_used_bit nth_list_update)

lemma set_used_loop_bits:
  "set_used_loop byte_index r l = Inr l' \<Longrightarrow> k < 8 * length l \<Longrightarrow>
   block_used l' k \<longleftrightarrow>
     block_used l k \<or> (8 * (byte_index + 1) \<le> k \<and> k < 8 * (byte_index + 1) + r)"
proof (induction r arbitrary: byte_index l rule: less_induct)
  case (less r)
  show ?case
  proof (cases "r = 0")
    case True
    with less.prems show ?thesis by (auto simp: set_used_loop_done)
  next
    case False
    define m :: uint8_t
      where "m = (if min r 8 < 8 then 0xFF - low_bits (8 - min r 8) else 0xFF)"
    define l1 where "l1 = l[byte_index + 1 := l ! (byte_index + 1) OR m]"
    from False have pos: "0 < r" by simp
    from less.prems(1) have inb: "byte_index + 1 < length l"
      by (simp add: set_used_loop_step [OF pos] split: if_splits)
    with less.prems(1) have rec: "set_used_loop (byte_index + 1) (r - min r 8) l1 = Inr l'"
      by (simp add: set_used_loop_step [OF pos] l1_def m_def)
    from pos have dec: "r - min r 8 < r" by (simp add: min_def)
    from less.prems(2) have k1: "k < 8 * length l1" by (simp add: l1_def)
    have mbit: "bit m (7 - k mod 8) \<longleftrightarrow> k mod 8 < r"
      unfolding m_def using pos by (intro bit_next_mask) simp_all
    have "block_used l1 k \<longleftrightarrow>
          (if k div 8 = byte_index + 1
           then bit (l ! (byte_index + 1) OR m) (7 - k mod 8) else block_used l k)"
      unfolding l1_def using inb less.prems(2) by (rule block_used_update)
    then have step: "block_used l1 k \<longleftrightarrow>
                block_used l k \<or> (k div 8 = byte_index + 1 \<and> k mod 8 < r)"
      by (cases "k div 8 = byte_index + 1") (simp_all add: bit_or_iff mbit block_used_bit)
    from less.IH [OF dec rec k1]
    have "block_used l' k \<longleftrightarrow>
          block_used l1 k \<or>
          (8 * (byte_index + 1 + 1) \<le> k \<and> k < 8 * (byte_index + 1 + 1) + (r - min r 8))" .
    with step have "block_used l' k \<longleftrightarrow>
          block_used l k \<or> (k div 8 = byte_index + 1 \<and> k mod 8 < r) \<or>
          (8 * (byte_index + 2) \<le> k \<and> k < 8 * (byte_index + 2) + (r - min r 8))"
      by auto
    then show ?thesis by (simp only: loop_split)
  qed
qed


lemma set_free_loop_bits:
  "set_free_loop byte_index r l = Inr l' \<Longrightarrow> k < 8 * length l \<Longrightarrow>
   block_used l' k \<longleftrightarrow>
     block_used l k \<and> \<not> (8 * (byte_index + 1) \<le> k \<and> k < 8 * (byte_index + 1) + r)"
proof (induction r arbitrary: byte_index l rule: less_induct)
  case (less r)
  show ?case
  proof (cases "r = 0")
    case True
    with less.prems show ?thesis by (auto simp: set_free_loop_done)
  next
    case False
    define m :: uint8_t
      where "m = (if min r 8 < 8 then 0xFF - low_bits (8 - min r 8) else 0xFF)"
    define l1 where "l1 = l[byte_index + 1 := l ! (byte_index + 1) AND NOT m]"
    from False have pos: "0 < r" by simp
    from less.prems(1) have inb: "byte_index + 1 < length l"
      by (simp add: set_free_loop_step [OF pos] split: if_splits)
    with less.prems(1) have rec: "set_free_loop (byte_index + 1) (r - min r 8) l1 = Inr l'"
      by (simp add: set_free_loop_step [OF pos] l1_def m_def)
    from pos have dec: "r - min r 8 < r" by (simp add: min_def)
    from less.prems(2) have k1: "k < 8 * length l1" by (simp add: l1_def)
    have mbit: "bit m (7 - k mod 8) \<longleftrightarrow> k mod 8 < r"
      unfolding m_def using pos by (intro bit_next_mask) simp_all
    have "block_used l1 k \<longleftrightarrow>
          (if k div 8 = byte_index + 1
           then bit (l ! (byte_index + 1) AND NOT m) (7 - k mod 8) else block_used l k)"
      unfolding l1_def using inb less.prems(2) by (rule block_used_update)
    then have step: "block_used l1 k \<longleftrightarrow>
                block_used l k \<and> \<not> (k div 8 = byte_index + 1 \<and> k mod 8 < r)"
      by (cases "k div 8 = byte_index + 1")
         (auto simp: bit_and_iff bit_not_iff mbit block_used_bit)
    from less.IH [OF dec rec k1]
    have "block_used l' k \<longleftrightarrow>
          block_used l1 k \<and>
          \<not> (8 * (byte_index + 1 + 1) \<le> k \<and> k < 8 * (byte_index + 1 + 1) + (r - min r 8))" .
    with step have "block_used l' k \<longleftrightarrow>
          block_used l k \<and> \<not> ((k div 8 = byte_index + 1 \<and> k mod 8 < r) \<or>
          (8 * (byte_index + 2) \<le> k \<and> k < 8 * (byte_index + 2) + (r - min r 8)))"
      by auto
    then show ?thesis by (simp only: loop_split)
  qed
qed

text \<open>
  \<open>set_used\<close> sets the bits of the blocks \<open>idx\<close> to \<open>idx + n - 1\<close> and no other bit of
  the ledger; \<open>set_free\<close> clears those bits and no other.
\<close>

lemma set_used_bits:
  assumes "set_used idx n l = Inr l'" and "k < 8 * length l"
  shows "block_used l' k \<longleftrightarrow>
         block_used l k \<or> (unat idx \<le> k \<and> k < unat idx + unat n)"
proof -
  define bi where "bi = unat (idx div 8)"
  define b0 where "b0 = unat (idx mod 8)"
  have d: "bi = unat idx div 8" and md: "b0 = unat idx mod 8"
    by (simp_all add: bi_def b0_def unat_div unat_mod)
  define m :: uint8_t where
    "m = (if unat n < 8 - b0 then low_bits (8 - b0) - low_bits (8 - b0 - unat n)
          else low_bits (8 - b0))"
  define r where "r = unat n - min (unat n) (8 - b0)"
  define l1 where "l1 = l[bi := l ! bi OR m]"
  have unfolded: "set_used idx n l =
      (if bi < length l then set_used_loop bi r l1 else Inl OutOfBounds)"
    unfolding set_used_def Let_def bi_def b0_def m_def r_def l1_def by (rule refl)
  with assms(1) have inb: "bi < length l"
    by (simp split: if_splits)
  with assms(1) unfolded have loop: "set_used_loop bi r l1 = Inr l'"
    by simp
  from assms(2) have k1: "k < 8 * length l1" by (simp add: l1_def)
  have mbit: "bit m (7 - k mod 8) \<longleftrightarrow> b0 \<le> k mod 8 \<and> k mod 8 < b0 + unat n"
    unfolding m_def by (intro bit_first_mask) (simp_all add: md)
  have "block_used l1 k \<longleftrightarrow>
        (if k div 8 = bi then bit (l ! bi OR m) (7 - k mod 8) else block_used l k)"
    unfolding l1_def using inb assms(2) by (rule block_used_update)
  then have step: "block_used l1 k \<longleftrightarrow>
        block_used l k \<or> (k div 8 = bi \<and> b0 \<le> k mod 8 \<and> k mod 8 < b0 + unat n)"
    by (cases "k div 8 = bi") (simp_all add: bit_or_iff mbit block_used_bit)
  from set_used_loop_bits [OF loop k1] step
  have "block_used l' k \<longleftrightarrow>
        block_used l k \<or>
        ((k div 8 = bi \<and> b0 \<le> k mod 8 \<and> k mod 8 < b0 + unat n) \<or>
         (8 * (bi + 1) \<le> k \<and> k < 8 * (bi + 1) + r))"
    by auto
  then show ?thesis
    unfolding r_def d md by (simp only: run_split)
qed

lemma set_free_bits:
  assumes "set_free idx n l = Inr l'" and "k < 8 * length l"
  shows "block_used l' k \<longleftrightarrow>
         block_used l k \<and> \<not> (unat idx \<le> k \<and> k < unat idx + unat n)"
proof -
  define bi where "bi = unat (idx div 8)"
  define b0 where "b0 = unat (idx mod 8)"
  have d: "bi = unat idx div 8" and md: "b0 = unat idx mod 8"
    by (simp_all add: bi_def b0_def unat_div unat_mod)
  define m :: uint8_t where
    "m = (if unat n < 8 - b0 then low_bits (8 - b0) - low_bits (8 - b0 - unat n)
          else low_bits (8 - b0))"
  define r where "r = unat n - min (unat n) (8 - b0)"
  define l1 where "l1 = l[bi := l ! bi AND NOT m]"
  have unfolded: "set_free idx n l =
      (if bi < length l then set_free_loop bi r l1 else Inl OutOfBounds)"
    unfolding set_free_def Let_def bi_def b0_def m_def r_def l1_def by (rule refl)
  with assms(1) have inb: "bi < length l"
    by (simp split: if_splits)
  with assms(1) unfolded have loop: "set_free_loop bi r l1 = Inr l'"
    by simp
  from assms(2) have k1: "k < 8 * length l1" by (simp add: l1_def)
  have mbit: "bit m (7 - k mod 8) \<longleftrightarrow> b0 \<le> k mod 8 \<and> k mod 8 < b0 + unat n"
    unfolding m_def by (intro bit_first_mask) (simp_all add: md)
  have "block_used l1 k \<longleftrightarrow>
        (if k div 8 = bi then bit (l ! bi AND NOT m) (7 - k mod 8) else block_used l k)"
    unfolding l1_def using inb assms(2) by (rule block_used_update)
  then have step: "block_used l1 k \<longleftrightarrow>
        block_used l k \<and> \<not> (k div 8 = bi \<and> b0 \<le> k mod 8 \<and> k mod 8 < b0 + unat n)"
    by (cases "k div 8 = bi") (auto simp: bit_and_iff bit_not_iff mbit block_used_bit)
  from set_free_loop_bits [OF loop k1] step
  have "block_used l' k \<longleftrightarrow>
        block_used l k \<and>
        \<not> ((k div 8 = bi \<and> b0 \<le> k mod 8 \<and> k mod 8 < b0 + unat n) \<or>
         (8 * (bi + 1) \<le> k \<and> k < 8 * (bi + 1) + r))"
    by auto
  then show ?thesis
    unfolding r_def d md by (simp only: run_split)
qed


lemma set_used_length: "set_used idx n l = Inr l' \<Longrightarrow> length l' = length l"
proof -
  assume a: "set_used idx n l = Inr l'"
  define bi where "bi = unat (idx div 8)"
  from a obtain l1 r where "set_used_loop bi r l1 = Inr l'" and "length l1 = length l"
    by (auto simp: set_used_def Let_def bi_def split: if_splits)
  with set_used_loop_props [of bi r l1 l'] show ?thesis by simp
qed

text \<open>
  When the run was free before \<open>set_used\<close>, \<open>set_free\<close> of the same run gives every
  position of the ledger the bit it had before.
\<close>

lemma free_run_round_trip:
  assumes "set_used idx n l = Inr l1" and "set_free idx n l1 = Inr l2"
      and "\<forall>j. unat idx \<le> j \<and> j < unat idx + unat n \<longrightarrow> \<not> block_used l j"
      and "k < 8 * length l"
  shows "block_used l2 k \<longleftrightarrow> block_used l k"
proof -
  from assms(1) have len: "length l1 = length l" by (rule set_used_length)
  with assms(4) have k1: "k < 8 * length l1" by simp
  from set_free_bits [OF assms(2) k1] set_used_bits [OF assms(1) assms(4)] assms(3)
  show ?thesis by blast
qed

section \<open>Requests that no ledger can hold\<close>

text \<open>
  The scan reports a run only when \<open>count\<close> reaches \<open>n\<close>, and \<open>count\<close> grows by
  one for each bit looked at. While the bits still to come are too few to take a
  counter that starts at \<open>count s\<close> up to \<open>n\<close>, and that is what the comparison with
  \<open>n - 1\<close> says also for \<open>n = 0\<close>, no run is reported.
\<close>

lemma inner_loop_short:
  "\<not> found s \<Longrightarrow> unat (count s) + k \<le> unat (n - 1) \<Longrightarrow>
   \<not> found (inner_loop n cur i k s) \<and>
   unat (count (inner_loop n cur i k s)) \<le> unat (count s) + k"
proof (induction k arbitrary: s)
  case 0
  then show ?case by simp
next
  case (Suc j)
  show ?case
  proof (cases "cur AND push_bit j 1 = 0")
    case True
    from Suc.prems(2) have lt: "unat (count s) < unat (n - 1)" by simp
    then have ne: "count s + 1 \<noteq> n" by (metis add_diff_cancel_right' less_irrefl)
    have "unat (count s) + 1 < 2 ^ 64"
      using lt unsigned_less [of "n - 1", where ?'a = nat] by simp
    then have u: "unat (count s + 1) = unat (count s) + 1"
      using unat_add_lem [of "count s" 1] by simp
    from Suc.IH [of "s\<lparr>count := count s + 1\<rparr>"] Suc.prems u
    have "\<not> found (inner_loop n cur i j (s\<lparr>count := count s + 1\<rparr>)) \<and>
          unat (count (inner_loop n cur i j (s\<lparr>count := count s + 1\<rparr>)))
            \<le> unat (count s) + 1 + j"
      by simp
    with True ne show ?thesis by (simp add: Let_def)
  next
    case False
    from Suc.IH [of "s\<lparr>count := 0, begin_index := of_nat i,
                      shift := of_nat ((8 - j) mod 8)\<rparr>"] Suc.prems
    have "\<not> found (inner_loop n cur i j
             (s\<lparr>count := 0, begin_index := of_nat i, shift := of_nat ((8 - j) mod 8)\<rparr>)) \<and>
          unat (count (inner_loop n cur i j
             (s\<lparr>count := 0, begin_index := of_nat i, shift := of_nat ((8 - j) mod 8)\<rparr>)))
            \<le> j"
      by simp
    with False show ?thesis by simp
  qed
qed

lemma find_loop_short:
  assumes "length (ledger b) = unat (ledger_size (BlockCount b))"
      and "length (ledger b) < 2 ^ 31"
  shows "\<not> found s \<Longrightarrow> i \<le> length (ledger b) \<Longrightarrow>
         unat (count s) + 8 * (length (ledger b) - i) \<le> unat (n - 1) \<Longrightarrow>
         find_loop b n i s = Inr (BlockCount b)"
proof (induction "length (ledger b) - i" arbitrary: i s)
  case 0
  with assms(1) show ?case by (simp add: find_loop.simps)
next
  case (Suc d)
  from Suc.hyps(2) have lt: "i < length (ledger b)" by simp
  with assms(2) have small: "i \<noteq> 2147483647" by simp
  define s' where "s' = inner_loop n (ledger b ! i) i 8 s"
  from Suc.prems(3) lt have "unat (count s) + 8 \<le> unat (n - 1)" by simp
  from inner_loop_short [OF Suc.prems(1) this, of "ledger b ! i" i]
  have nf: "\<not> found s'" and c: "unat (count s') \<le> unat (count s) + 8"
    by (simp_all add: s'_def)
  from Suc.hyps(2) have d: "d = length (ledger b) - (i + 1)" by simp
  from lt have le: "i + 1 \<le> length (ledger b)" by simp
  from c Suc.prems(3) lt
  have "unat (count s') + 8 * (length (ledger b) - (i + 1)) \<le> unat (n - 1)" by simp
  from Suc.hyps(1) [OF d nf le this]
  have "find_loop b n (i + 1) s' = Inr (BlockCount b)" .
  with lt small nf assms(1) show ?case
    by (subst find_loop.simps) (simp add: Let_def s'_def)
qed

lemma find_contiguous_blocks_short:
  assumes "length (ledger b) = unat (ledger_size (BlockCount b))"
      and "length (ledger b) < 2 ^ 31"
      and "8 * length (ledger b) \<le> unat (n - 1)"
  shows "find_contiguous_blocks b n = Inr (BlockCount b)"
  unfolding find_contiguous_blocks_def
  using assms(3) by (intro find_loop_short [OF assms(1,2)]) simp_all


lemma zero_length_blocks:
  "BlockSize b \<noteq> 0 \<Longrightarrow>
   unat (1 + ((0 - 1) div BlockSize b) - 1) = (2 ^ 64 - 1) div unat (BlockSize b)"
proof -
  have "unat (- 1 :: size_t) = 2 ^ 64 - 1"
    by (simp add: unsigned_minus_1_eq_mask mask_eq_exp_minus_1)
  then show ?thesis by (simp add: unat_div)
qed

lemma zero_length_request_none:
  assumes "BlockSize b \<noteq> 0"
      and "length (ledger b) = unat (ledger_size (BlockCount b))"
      and "length (ledger b) < 2 ^ 31"
      and "8 * length (ledger b) \<le> (2 ^ 64 - 1) div unat (BlockSize b)"
  shows "bucket_allocate b 0 = Inr (None, b)"
proof -
  from assms(4) have "8 * length (ledger b) \<le> unat (1 + ((0 - 1) div BlockSize b) - 1)"
    by (simp only: zero_length_blocks [OF assms(1)])
  from find_contiguous_blocks_short [OF assms(2,3) this] assms(1) show ?thesis
    by (simp add: bucket_allocate_def)
qed

text \<open>So a request of length zero is refused by every bucket whose ledger, padding
  included, has no more than \<open>(2^64 - 1) div BlockSize\<close> positions, and by a pool of
  such buckets.\<close>

lemma zero_length_request_bad_alloc:
  assumes "\<forall>b \<in> set pool.
             BlockSize b \<noteq> 0 \<and> length (ledger b) = unat (ledger_size (BlockCount b)) \<and>
             length (ledger b) < 2 ^ 31 \<and>
             8 * length (ledger b) \<le> (2 ^ 64 - 1) div unat (BlockSize b)"
  shows "MemoryPoolAllocator_allocate pool 0 = (Inl bad_alloc, pool)"
proof (rule allocate_all_none)
  show "\<forall>b \<in> set pool. \<exists>b'. bucket_allocate b 0 = Inr (None, b')"
    using assms zero_length_request_none by blast
qed

lemma zero_length_request_example:
  "MemoryPoolAllocator_allocate [new_bucket 1000 8 16, new_bucket 5000 24 16] 0 =
     (Inl bad_alloc, [new_bucket 1000 8 16, new_bucket 5000 24 16])"
  by (rule zero_length_request_bad_alloc) (simp add: new_bucket_def ledger_size_def)

section \<open>A bucket whose blocks are all used\<close>

text \<open>
  The inner loop over bits that are all set ends with the counter at zero and the
  resumption point at the bit after the last one; over bits that are all clear it counts
  them, and stops with \<open>found\<close> when the counter reaches \<open>n\<close>.
\<close>

lemma inner_loop_all_set:
  "0 < k \<Longrightarrow> \<forall>j < k. cur AND push_bit (j0 + j) 1 \<noteq> 0 \<Longrightarrow>
   inner_loop n cur i (j0 + k) s =
   inner_loop n cur i j0
     (s\<lparr>count := 0, begin_index := of_nat i, shift := of_nat ((8 - j0) mod 8)\<rparr>)"
proof (induction k arbitrary: s)
  case 0
  then show ?case by simp
next
  case (Suc k)
  from Suc.prems(2) have top: "cur AND push_bit (j0 + k) 1 \<noteq> 0" by simp
  show ?case
  proof (cases "k = 0")
    case True
    with top show ?thesis by simp
  next
    case False
    with Suc.prems(2) Suc.IH [of "s\<lparr>count := 0, begin_index := of_nat i,
                                    shift := of_nat ((8 - (j0 + k)) mod 8)\<rparr>"] top
    show ?thesis by simp
  qed
qed

lemma inner_loop_all_clear:
  "\<forall>j < k. cur AND push_bit j 1 = 0 \<Longrightarrow>
   begin_index (inner_loop n cur i k s) = begin_index s \<and>
   shift (inner_loop n cur i k s) = shift s"
proof (induction k arbitrary: s)
  case 0
  then show ?case by simp
next
  case (Suc k)
  from Suc.prems have clr: "cur AND push_bit k 1 = 0" by simp
  from Suc.IH [of "s\<lparr>count := count s + 1\<rparr>"] Suc.prems clr
  show ?case by (simp add: Let_def)
qed

text \<open>The number of ledger bytes, and the blocks of the last byte.\<close>

lemma ledger_size_unat:
  "BlockCount b \<noteq> 0 \<Longrightarrow>
   unat (ledger_size (BlockCount b)) = 1 + (unat (BlockCount b) - 1) div 8"
proof -
  assume nz: "BlockCount b \<noteq> 0"
  then have one: "1 \<le> BlockCount b" by (simp add: word_le_nat_alt unat_gt_0 Suc_leI)
  have q: "unat ((BlockCount b - 1) div 8) = (unat (BlockCount b) - 1) div 8"
    using one by (simp add: unat_div unat_sub)
  have "(unat (BlockCount b) - 1) div 8 < 2 ^ 64 - 1"
    using unsigned_less [of "BlockCount b", where ?'a = nat] by simp
  then have "unat (1 :: size_t) + unat ((BlockCount b - 1) div 8) < 2 ^ 64"
    by (simp add: q)
  then show ?thesis
    unfolding ledger_size_def using q by (simp add: unat_add_lem [THEN iffD1])
qed

text \<open>
  With every block used and every padding position clear, the scan passes the full
  bytes without a run. In the last byte a run can only start at the first padding
  position, which has the number \<open>BlockCount\<close>: the scan then returns the value that
  \<open>allocate\<close> reads as "no run".
\<close>

lemma find_loop_all_used:
  assumes len: "length (ledger b) = unat (ledger_size (BlockCount b))"
      and small: "length (ledger b) < 2 ^ 31"
      and nz: "BlockCount b \<noteq> 0"
      and used: "\<forall>k < unat (BlockCount b). block_used (ledger b) k"
      and pad: "\<forall>k. unat (BlockCount b) \<le> k \<and> k < 8 * length (ledger b) \<longrightarrow>
                  \<not> block_used (ledger b) k"
  shows "\<not> found s \<Longrightarrow> i < length (ledger b) \<Longrightarrow> find_loop b n i s = Inr (BlockCount b)"
proof (induction "length (ledger b) - 1 - i" arbitrary: i s)
  case 0
  define L where "L = length (ledger b)"
  define bc where "bc = unat (BlockCount b)"
  define m where "m = bc - 8 * (L - 1)"
  from "0.hyps" "0.prems"(2) have i: "i = L - 1" and Lpos: "0 < L"
    unfolding L_def by linarith+
  have L: "L = 1 + (bc - 1) div 8"
    using len ledger_size_unat [OF nz] by (simp add: L_def bc_def)
  have bcpos: "0 < bc" using nz by (simp add: bc_def unat_gt_0)
  from L bcpos have m: "0 < m" "m \<le> 8" and bc: "bc = 8 * (L - 1) + m"
    by (simp_all add: m_def)
  define cur where "cur = ledger b ! i"
  have set_bits: "\<forall>j < m. cur AND push_bit (8 - m + j) 1 \<noteq> 0"
  proof (intro allI impI)
    fix j assume j: "j < m"
    define p where "p = m - 1 - j"
    from j m have p: "p < 8" and bitp: "7 - p = 8 - m + j" by (simp_all add: p_def)
    from j bc i have inb: "8 * i + p < bc" by (simp add: p_def)
    have dv: "(8 * i + p) div 8 = i" and md: "(8 * i + p) mod 8 = p"
      using p by simp_all
    from used inb have "block_used (ledger b) (8 * i + p)" by (simp add: bc_def)
    then have "ledger b ! i AND push_bit (7 - p) 1 \<noteq> 0"
      unfolding block_used_def dv md .
    then show "cur AND push_bit (8 - m + j) 1 \<noteq> 0"
      unfolding cur_def bitp .
  qed
  have clear_bits: "\<forall>j < 8 - m. cur AND push_bit j 1 = 0"
  proof (intro allI impI)
    fix j assume j: "j < 8 - m"
    define p where "p = 7 - j"
    from j have p: "p < 8" and bitp: "7 - p = j" by (simp_all add: p_def)
    from j m bc i Lpos have lo: "bc \<le> 8 * i + p" and hi: "8 * i + p < 8 * L"
      by (simp_all add: p_def)
    have dv: "(8 * i + p) div 8 = i" and md: "(8 * i + p) mod 8 = p"
      using p by simp_all
    from pad lo hi have "\<not> block_used (ledger b) (8 * i + p)"
      by (simp add: bc_def L_def)
    then have "ledger b ! i AND push_bit (7 - p) 1 = 0"
      unfolding block_used_def dv md by simp
    then show "cur AND push_bit j 1 = 0"
      unfolding cur_def bitp .
  qed
  define s1 where
    "s1 = s\<lparr>count := 0, begin_index := of_nat i, shift := of_nat ((8 - (8 - m)) mod 8)\<rparr>"
  define s' where "s' = inner_loop n cur i 8 s"
  have "inner_loop n cur i (8 - m + m) s = inner_loop n cur i (8 - m) s1"
    unfolding s1_def using m(1) set_bits by (rule inner_loop_all_set)
  with m have s': "s' = inner_loop n cur i (8 - m) s1" by (simp add: s'_def)
  from inner_loop_all_clear [OF clear_bits, of n i s1]
  have bs: "begin_index s' = of_nat i" "shift s' = of_nat (m mod 8)"
    using m by (simp_all add: s' s1_def)
  have res: "found s' \<Longrightarrow> 8 * begin_index s' + shift s' = BlockCount b"
  proof -
    assume f: "found s'"
    have "m < 8"
    proof (rule ccontr)
      assume "\<not> m < 8"
      with m have "m = 8" by simp
      with s' have "s' = s1" by simp
      with f "0.prems"(1) show False by (simp add: s1_def)
    qed
    then have "8 * begin_index s' + shift s' = (of_nat (8 * i + m) :: size_t)"
      by (simp add: bs)
    also have "\<dots> = of_nat bc" using bc i by simp
    also have "\<dots> = BlockCount b" by (simp add: bc_def)
    finally show ?thesis .
  qed
  have last: "\<not> i + 1 < unat (ledger_size (BlockCount b))"
    using i Lpos len by (simp add: L_def)
  from small i Lpos have ni: "i \<noteq> 2147483647" by (simp add: L_def)
  have exit: "find_loop b n (i + 1) s' = Inr (BlockCount b)"
    using last by (subst find_loop.simps) simp
  from "0.prems"(2) len have "i < unat (ledger_size (BlockCount b))" by simp
  with "0.prems"(2) res ni exit show ?case
    by (subst find_loop.simps) (auto simp: Let_def s'_def cur_def)
next
  case (Suc d)
  define L where "L = length (ledger b)"
  define bc where "bc = unat (BlockCount b)"
  from Suc.hyps(2) have i: "i + 1 < L" by (simp add: L_def)
  have L: "L = 1 + (bc - 1) div 8"
    using len ledger_size_unat [OF nz] by (simp add: L_def bc_def)
  from L i have full: "8 * (i + 1) < bc" by simp
  define cur where "cur = ledger b ! i"
  have set_bits: "\<forall>j < 8. cur AND push_bit (0 + j) 1 \<noteq> 0"
  proof (intro allI impI)
    fix j :: nat assume j: "j < 8"
    define p where "p = 7 - j"
    from j have p: "p < 8" and bitp: "7 - p = 0 + j" by (simp_all add: p_def)
    from full have inb: "8 * i + p < bc" by (simp add: p_def)
    have dv: "(8 * i + p) div 8 = i" and md: "(8 * i + p) mod 8 = p"
      using p by simp_all
    from used inb have "block_used (ledger b) (8 * i + p)" by (simp add: bc_def)
    then have "ledger b ! i AND push_bit (7 - p) 1 \<noteq> 0"
      unfolding block_used_def dv md .
    then show "cur AND push_bit (0 + j) 1 \<noteq> 0"
      unfolding cur_def bitp .
  qed
  define s' where "s' = inner_loop n cur i 8 s"
  have "inner_loop n cur i (0 + 8) s =
        inner_loop n cur i 0
          (s\<lparr>count := 0, begin_index := of_nat i, shift := of_nat ((8 - 0) mod 8)\<rparr>)"
    using set_bits by (intro inner_loop_all_set) simp_all
  then have nf: "\<not> found s'" using Suc.prems(1) by (simp add: s'_def)
  from Suc.hyps(2) have d: "d = length (ledger b) - 1 - (i + 1)" by simp
  from i have i1: "i + 1 < length (ledger b)" by (simp add: L_def)
  from Suc.hyps(1) [OF d nf i1] have rec: "find_loop b n (i + 1) s' = Inr (BlockCount b)" .
  from small i have ni: "i \<noteq> 2147483647" by (simp add: L_def)
  from Suc.prems(2) len have "i < unat (ledger_size (BlockCount b))" by simp
  with Suc.prems(2) nf ni rec show ?case
    by (subst find_loop.simps) (simp add: Let_def s'_def cur_def)
qed

lemma exhausted_bucket_returns_none:
  assumes "BlockSize b \<noteq> 0"
      and "length (ledger b) = unat (ledger_size (BlockCount b))"
      and "length (ledger b) < 2 ^ 31"
      and "BlockCount b \<noteq> 0"
      and "\<forall>k < unat (BlockCount b). block_used (ledger b) k"
      and "\<forall>k. unat (BlockCount b) \<le> k \<and> k < 8 * length (ledger b) \<longrightarrow>
                  \<not> block_used (ledger b) k"
  shows "bucket_allocate b bytes = Inr (None, b)"
proof -
  from assms(2,4) have "0 < length (ledger b)"
    by (simp add: ledger_size_unat)
  with find_loop_all_used [OF assms(2-6), of _ 0]
  have "find_contiguous_blocks b (1 + ((bytes - 1) div BlockSize b)) = Inr (BlockCount b)"
    by (simp add: find_contiguous_blocks_def)
  with assms(1) show ?thesis by (simp add: bucket_allocate_def)
qed

lemma exhausted_bucket_example:
  "bucket_allocate \<lparr>BlockSize = 8, BlockCount = 3, data = base, ledger = [0xE0]\<rparr> 8 =
     Inr (None, \<lparr>BlockSize = 8, BlockCount = 3, data = base, ledger = [0xE0]\<rparr>)"
  by (simp add: bucket_eval)

section \<open>Requests of length zero\<close>

lemma zero_length_count:
  assumes "BlockSize b \<noteq> 0"
  shows "(BlockSize b = 1 \<longrightarrow> 1 + ((0 - 1) div BlockSize b) = 0) \<and>
         (BlockSize b \<noteq> 1 \<longrightarrow>
            unat (1 + ((0 - 1) div BlockSize b)) = 1 + (2 ^ 64 - 1) div unat (BlockSize b))"
proof (intro conjI impI)
  assume "BlockSize b = 1"
  then show "1 + ((0 - 1) div BlockSize b) = 0" by simp
next
  assume ne: "BlockSize b \<noteq> 1"
  have m1: "unat (- 1 :: size_t) = 2 ^ 64 - 1"
    by (simp add: unsigned_minus_1_eq_mask mask_eq_exp_minus_1)
  have "unat (BlockSize b) \<noteq> 0" using assms by (simp add: unat_eq_0)
  moreover have "unat (BlockSize b) \<noteq> 1"
  proof
    assume "unat (BlockSize b) = 1"
    then have "BlockSize b = of_nat 1" by (metis of_nat_unat ucast_id)
    with ne show False by simp
  qed
  ultimately have two: "2 \<le> unat (BlockSize b)" by linarith
  have q: "unat (- 1 div BlockSize b) = (2 ^ 64 - 1) div unat (BlockSize b)"
    using m1 by (simp add: unat_div)
  have "(2 ^ 64 - 1 :: nat) div unat (BlockSize b) \<le> (2 ^ 64 - 1) div 2"
    using two by (intro div_le_mono2) simp_all
  then have "unat (1 :: size_t) + unat (- 1 div BlockSize b) < 2 ^ 64"
    unfolding q by simp
  then have "unat (1 + (- 1 div BlockSize b)) = 1 + unat (- 1 div BlockSize b)"
    using unat_add_lem [of 1 "- 1 div BlockSize b"] by simp
  then show "unat (1 + ((0 - 1) div BlockSize b)) = 1 + (2 ^ 64 - 1) div unat (BlockSize b)"
    unfolding q by simp
qed

lemma short_ledger_blocks:
  assumes "length (ledger b) = unat (ledger_size (BlockCount b))"
      and "length (ledger b) < 2 ^ 31"
  shows "unat (BlockCount b) \<le> 8 * length (ledger b)"
proof (cases "BlockCount b = 0")
  case True
  then show ?thesis by simp
next
  case False
  from ledger_size_unat [OF False] assms(1) show ?thesis by simp
qed

text \<open>
  A bucket that the constructor has built has an arena that \<open>malloc\<close> returned (the
  constructor does not check the result and fails in \<open>memset\<close> otherwise). No 64-bit
  machine returns \<open>2^61\<close> bytes, so such a bucket has an arena below that size, and its
  ledger, padding included, has fewer positions than a request of length zero asks for.
\<close>

lemma built_bucket_short_ledger:
  assumes nz: "BlockSize b \<noteq> 0"
      and len: "length (ledger b) = unat (ledger_size (BlockCount b))"
      and small: "length (ledger b) < 2 ^ 31"
      and arena: "unat (BlockSize b) * unat (BlockCount b) < 2 ^ 61"
  shows "8 * length (ledger b) \<le> (2 ^ 64 - 1) div unat (BlockSize b)"
proof -
  define S where "S = unat (BlockSize b)"
  define C where "C = unat (BlockCount b)"
  define L where "L = length (ledger b)"
  have S: "0 < S" using nz by (simp add: S_def unat_gt_0)
  have cnz: "BlockCount b \<noteq> 0"
  proof
    assume z: "BlockCount b = 0"
    have "unat (- 1 :: size_t) = 2 ^ 64 - 1"
      by (simp add: unsigned_minus_1_eq_mask mask_eq_exp_minus_1)
    then have "unat ((- 1 :: size_t) div 8) = (2 ^ 64 - 1) div 8"
      by (simp add: unat_div)
    then have "unat (1 + (- 1 :: size_t) div 8) = 1 + (2 ^ 64 - 1) div 8"
      using unat_add_lem [of "1 :: size_t" "- 1 div 8"] by simp
    with z len small show False by (simp add: ledger_size_def)
  qed
  then have C: "0 < C" by (simp add: C_def unat_gt_0)
  have "L = 1 + (C - 1) div 8"
    using ledger_size_unat [OF cnz] len by (simp add: L_def C_def)
  with C have "8 * L \<le> 8 * C" by simp
  then have "8 * L * S \<le> 8 * C * S" by (rule mult_le_mono1)
  also have "\<dots> = 8 * (S * C)" by simp
  also have "\<dots> < 8 * 2 ^ 61" using arena unfolding S_def C_def by linarith
  finally have "8 * L * S \<le> 2 ^ 64 - 1" by simp
  with S have "8 * L \<le> (2 ^ 64 - 1) div S"
    by (simp add: less_eq_div_iff_mult_less_eq)
  then show ?thesis by (simp add: L_def S_def)
qed

lemma zero_length_count_mod:
  assumes "BlockSize b \<noteq> 0"
  shows "unat (1 + ((0 - 1) div BlockSize b)) =
         (1 + (2 ^ 64 - 1) div unat (BlockSize b)) mod 2 ^ 64"
proof (cases "BlockSize b = 1")
  case True
  then show ?thesis by simp
next
  case False
  with zero_length_count [OF assms]
  have u: "unat (1 + ((0 - 1) div BlockSize b)) = 1 + (2 ^ 64 - 1) div unat (BlockSize b)"
    by simp
  have "unat (1 + ((0 - 1) div BlockSize b)) < 2 ^ 64"
    using unsigned_less [of "1 + ((0 - 1) div BlockSize b)", where ?'a = nat] by simp
  with u show ?thesis by simp
qed

text \<open>
  C9. A request of length zero asks for \<open>n = 1 + ((0 - 1) / BlockSize)\<close> blocks in
  64-bit arithmetic, which is \<open>1 + (2^64 - 1) div BlockSize\<close> reduced modulo \<open>2^64\<close>:
  that number for a block size of 2 or more, and 0 for a block size of 1. Every bucket
  built by the constructor whose block count is smaller than
  \<open>1 + (2^64 - 1) div BlockSize\<close> finds no run and returns \<open>nullptr\<close>, and over a pool
  of such buckets \<open>allocate\<close> of the dispatcher throws \<open>std::bad_alloc\<close> and leaves the
  pool, so every ledger, as it was. The ledger is taken to have fewer than \<open>2^31\<close>
  bytes, so that the \<open>int\<close> counter of the scan does not overflow.
\<close>

theorem zero_length_request_is_bad_alloc:
  assumes "\<forall>b \<in> set pool.
             BlockSize b \<noteq> 0 \<and> length (ledger b) = unat (ledger_size (BlockCount b)) \<and>
             length (ledger b) < 2 ^ 31 \<and>
             unat (BlockSize b) * unat (BlockCount b) < 2 ^ 61 \<and>
             unat (BlockCount b) < 1 + (2 ^ 64 - 1) div unat (BlockSize b)"
  shows "(\<forall>b \<in> set pool.
            unat (1 + ((0 - 1) div BlockSize b)) =
              (1 + (2 ^ 64 - 1) div unat (BlockSize b)) mod 2 ^ 64 \<and>
            bucket_allocate b 0 = Inr (None, b)) \<and>
         MemoryPoolAllocator_allocate pool 0 = (Inl bad_alloc, pool)"
proof
  have none: "bucket_allocate b 0 = Inr (None, b)" if "b \<in> set pool" for b
  proof -
    from that assms have nz: "BlockSize b \<noteq> 0"
      and len: "length (ledger b) = unat (ledger_size (BlockCount b))"
      and small: "length (ledger b) < 2 ^ 31"
      and arena: "unat (BlockSize b) * unat (BlockCount b) < 2 ^ 61"
      by blast+
    from built_bucket_short_ledger [OF nz len small arena]
    show ?thesis by (rule zero_length_request_none [OF nz len small])
  qed
  show "\<forall>b \<in> set pool.
            unat (1 + ((0 - 1) div BlockSize b)) =
              (1 + (2 ^ 64 - 1) div unat (BlockSize b)) mod 2 ^ 64 \<and>
            bucket_allocate b 0 = Inr (None, b)"
  proof
    fix b assume b: "b \<in> set pool"
    with assms have "BlockSize b \<noteq> 0" by blast
    from zero_length_count_mod [OF this] none [OF b]
    show "unat (1 + ((0 - 1) div BlockSize b)) =
              (1 + (2 ^ 64 - 1) div unat (BlockSize b)) mod 2 ^ 64 \<and>
            bucket_allocate b 0 = Inr (None, b)"
      by simp
  qed
  show "MemoryPoolAllocator_allocate pool 0 = (Inl bad_alloc, pool)"
  proof (rule allocate_all_none)
    show "\<forall>b \<in> set pool. \<exists>b'. bucket_allocate b 0 = Inr (None, b')"
      using none by blast
  qed
qed

theorem zero_length_request_is_bad_alloc_witness:
  "length (ledger (new_bucket 1000 1 16)) = unat (ledger_size 16) \<and>
   unat (1 :: size_t) * unat (16 :: size_t) < 2 ^ 61 \<and>
   unat (16 :: size_t) < 1 + (2 ^ 64 - 1) div unat (1 :: size_t) \<and>
   length (ledger (new_bucket 5000 24 16)) = unat (ledger_size 16) \<and>
   unat (24 :: size_t) * unat (16 :: size_t) < 2 ^ 61 \<and>
   unat (16 :: size_t) < 1 + (2 ^ 64 - 1) div unat (24 :: size_t) \<and>
   bucket_allocate (new_bucket 1000 1 16) 0 = Inr (None, new_bucket 1000 1 16) \<and>
   bucket_allocate (new_bucket 5000 24 16) 0 = Inr (None, new_bucket 5000 24 16) \<and>
   MemoryPoolAllocator_allocate [new_bucket 1000 1 16, new_bucket 5000 24 16] 0 =
     (Inl bad_alloc, [new_bucket 1000 1 16, new_bucket 5000 24 16])"
  using zero_length_request_is_bad_alloc [of "[new_bucket 1000 1 16, new_bucket 5000 24 16]"]
  by (simp add: new_bucket_def ledger_size_def)

text \<open>
  The count is not \<open>1 + (2^64 - 1) div BlockSize\<close> itself: for a bucket of 16 blocks of
  1 byte that number is \<open>2^64\<close>, and the count the code computes is 0. The bucket still
  returns \<open>nullptr\<close>, since no counter of the scan ever equals 0.
\<close>

theorem zero_length_request_counterexample:
  "1 + ((0 - 1) div BlockSize (new_bucket 1000 1 16)) = 0 \<and>
   unat (1 + ((0 - 1) div BlockSize (new_bucket 1000 1 16))) \<noteq>
     1 + (2 ^ 64 - 1) div unat (BlockSize (new_bucket 1000 1 16)) \<and>
   bucket_allocate (new_bucket 1000 1 16) 0 = Inr (None, new_bucket 1000 1 16)"
  by (simp add: bucket_eval)

text \<open>
  The bound on the arena cannot be dropped from the statement about the model. A record
  with one block of \<open>2^61\<close> bytes and a ledger of one byte, which no call of the
  constructor yields, has fewer blocks than the 8 that a request of length zero asks
  for, and the scan finds them in the eight positions of the ledger byte.
\<close>

lemma arena_bound_needed:
  "1 + ((0 - 1) div 2305843009213693952) = (8 :: size_t) \<and>
   bucket_allocate
     \<lparr>BlockSize = 2305843009213693952, BlockCount = 1, data = base, ledger = [0]\<rparr> 0 =
     Inr (Some base,
          \<lparr>BlockSize = 2305843009213693952, BlockCount = 1, data = base,
           ledger = [0xFF]\<rparr>)"
  by (simp add: bucket_eval)

end
